theory Spec2Isabelle
  imports Main "HOL-Library.Word"
begin

section \<open>Strings, values and the parser state\<close>

text \<open>
  A JavaScript string is a sequence of 16-bit code units. The one-character strings that
  \<^verbatim>\<open>charAt\<close> returns, and the empty string it returns past the end, are strings too.
\<close>

type_synonym jschar = "16 word"
type_synonym jsstring = "jschar list"

fun js :: "string \<Rightarrow> jsstring" where
  "js [] = []"
| "js (x # xs) = of_char x # js xs"

definition charAt :: "jsstring \<Rightarrow> nat \<Rightarrow> jsstring" where
  "charAt text i = (if i < length text then [text ! i] else [])"

text \<open>The token types enumeration \<^verbatim>\<open>TOKENTYPE\<close>.\<close>

datatype TOKENTYPE = NULL | DELIMITER | NUMBER | STRING | SYMBOL | UNKNOWN

text \<open>
  A Number is an IEEE 754 double: \<open>Double sg m e\<close> is the value \<open>m * 2 ^ e\<close>, negative when
  \<open>sg\<close> holds, with \<open>m < 2 ^ 53\<close>; zero is \<open>Double sg 0 (-1074)\<close>.
\<close>

datatype jsnumber = Double bool int int | Infinity bool | NaN

type_synonym addr = nat

datatype jsvalue =
    JUndefined
  | JNull
  | JBool bool
  | JNumber jsnumber
  | JString jsstring
  | JRef addr

text \<open>
  Objects and arrays live in a store and are referred to by address, since the parser's
  stack aliases the containers of the tree under construction. An object has its own
  properties and a prototype, which is \<^verbatim>\<open>Object.prototype\<close> unless an assignment to the
  key \<^verbatim>\<open>__proto__\<close> changed it.
\<close>

datatype proto = ProtoObject | ProtoNull | ProtoRef addr

datatype container =
    JObject proto "(jsstring \<times> jsvalue) list"
  | JArray "jsvalue list"

text \<open>The messages of the errors the parser throws.\<close>

datatype message =
    Unexpected_characters
  | Invalid_number_digit_expected
  | Invalid_unicode_character
  | Invalid_escape_character jsstring
  | End_of_string_expected
  | Syntax_error_in_part jsstring
  | Object_key_expected
  | Colon_expected
  | Comma_or_end_of_object_expected
  | Comma_or_end_of_array_expected
  | Unknown_symbol jsstring
  | Unexpected_end_of_json_string
  | Value_expected

text \<open>
  \<open>SyntaxError m p\<close> is the error of \<^verbatim>\<open>createSyntaxError\<close>, with its \<^verbatim>\<open>char\<close> property \<open>p\<close>;
  \<open>Error_Invalid_circular_reference r\<close> is the plain \<^verbatim>\<open>Error\<close> of \<^verbatim>\<open>parseCircular\<close>, whose
  message quotes \<open>r\<close>, the value of \<^verbatim>\<open>object.$ref\<close>;
  \<open>TypeError_Cyclic_proto\<close> is what the \<^verbatim>\<open>__proto__\<close> setter throws; \<open>Thrown x\<close> is an
  exception of a collaborator (\<^verbatim>\<open>parsePointer\<close>, \<^verbatim>\<open>revive\<close>).
\<close>

datatype error =
    SyntaxError message int
  | Error_Invalid_circular_reference jsvalue
  | TypeError_Cyclic_proto
  | Thrown jsstring

text \<open>
  The module-level variables of \<^verbatim>\<open>parse.js\<close>, and the store of the objects and arrays
  allocated by the running call. \<open>path\<close> and \<open>stack\<close> are JavaScript arrays.
\<close>

record pstate =
  jsonText :: jsstring
  index :: nat
  c :: jsstring
  token :: jsstring
  tokenType :: TOKENTYPE
  path :: "jsvalue list"
  stack :: "jsvalue list"
  heap :: "container list"

section \<open>The tokenizer\<close>

definition DELIMITERS :: "jsstring \<Rightarrow> bool" where
  "DELIMITERS x = (x \<in> {[], js ''{'', js ''}'', js ''['', js '']'', js '':'', js '',''})"

text \<open>The code units are: quote 0x22, backslash 0x5C, and the control characters.\<close>

definition ESCAPE_CHARACTERS :: "jsstring \<Rightarrow> jsstring option" where
  "ESCAPE_CHARACTERS x =
     (if x = [0x22] then Some [0x22]
      else if x = [0x5C] then Some [0x5C]
      else if x = js ''/'' then Some (js ''/'')
      else if x = js ''b'' then Some [0x08]
      else if x = js ''f'' then Some [0x0C]
      else if x = js ''n'' then Some [0x0A]
      else if x = js ''r'' then Some [0x0D]
      else if x = js ''t'' then Some [0x09]
      else None)"

definition js_next :: "pstate \<Rightarrow> pstate" where
  "js_next s = s\<lparr>index := index s + 1, c := charAt (jsonText s) (index s + 1)\<rparr>"

text \<open>\<^verbatim>\<open>token += c; next()\<close>\<close>

definition take_char :: "pstate \<Rightarrow> pstate" where
  "take_char s = js_next (s\<lparr>token := token s @ c s\<rparr>)"

text \<open>\<^verbatim>\<open>/^[a-zA-Z_]/.test(c)\<close> looks at the first code unit.\<close>

fun isAlpha :: "jsstring \<Rightarrow> bool" where
  "isAlpha [] = False"
| "isAlpha (x # xs) = ((0x61 \<le> x \<and> x \<le> 0x7A) \<or> (0x41 \<le> x \<and> x \<le> 0x5A) \<or> x = 0x5F)"

fun isHex :: "jsstring \<Rightarrow> bool" where
  "isHex [] = False"
| "isHex (x # xs) = ((0x30 \<le> x \<and> x \<le> 0x39) \<or> (0x61 \<le> x \<and> x \<le> 0x66) \<or> (0x41 \<le> x \<and> x \<le> 0x46))"

text \<open>\<^verbatim>\<open>c >= '0' && c <= '9'\<close> compares strings, lexicographically.\<close>

fun isDigit :: "jsstring \<Rightarrow> bool" where
  "isDigit [] = False"
| "isDigit (x # xs) = (0x30 \<le> x \<and> (x < 0x39 \<or> (x = 0x39 \<and> xs = [])))"

definition createSyntaxError :: "message \<Rightarrow> nat option \<Rightarrow> pstate \<Rightarrow> error" where
  "createSyntaxError m p s =
     SyntaxError m (case p of None \<Rightarrow> int (index s) - int (length (token s)) | Some i \<Rightarrow> int i)"

text \<open>
  The loops of the tokenizer stop at the end of the text at the latest: \<^verbatim>\<open>next\<close> makes
  \<open>c\<close> the character at \<open>index\<close>, which is empty from the end of the text on.
\<close>

definition remaining :: "pstate \<Rightarrow> nat" where
  "remaining s = (length (jsonText s) - index s)
     + (if c s = charAt (jsonText s) (index s) then 0 else 1)"

lemma remaining_js_next: "c s \<noteq> [] \<Longrightarrow> remaining (js_next s) < remaining s"
  by (auto simp: remaining_def js_next_def charAt_def)

lemma remaining_take_char: "c s \<noteq> [] \<Longrightarrow> remaining (take_char s) < remaining s"
  by (auto simp: remaining_def take_char_def js_next_def charAt_def)

lemma remaining_js_next_le: "remaining (js_next s) \<le> remaining s"
  by (auto simp: remaining_def js_next_def charAt_def)

lemma remaining_token_update [simp]: "remaining (s\<lparr>token := t\<rparr>) = remaining s"
  by (simp add: remaining_def)

lemma remaining_tokenType_update [simp]: "remaining (s\<lparr>tokenType := t\<rparr>) = remaining s"
  by (simp add: remaining_def)

function skipWhitespace :: "pstate \<Rightarrow> pstate" where
  "skipWhitespace s =
     (if c s = js '' '' \<or> c s = [0x09] \<or> c s = [0x0A] \<or> c s = [0x0D]
      then skipWhitespace (js_next s) else s)"
  by pat_completeness auto
termination
  by (relation "measure remaining") (auto intro: remaining_js_next)

declare skipWhitespace.simps [simp del]

function digitLoop :: "pstate \<Rightarrow> pstate" where
  "digitLoop s = (if isDigit (c s) then digitLoop (take_char s) else s)"
  by pat_completeness auto
termination
  by (relation "measure remaining") (auto intro!: remaining_take_char)

declare digitLoop.simps [simp del]

function alphaLoop :: "pstate \<Rightarrow> pstate" where
  "alphaLoop s = (if isAlpha (c s) then alphaLoop (take_char s) else s)"
  by pat_completeness auto
termination
  by (relation "measure remaining") (auto intro!: remaining_take_char)

declare alphaLoop.simps [simp del]

function unknownLoop :: "pstate \<Rightarrow> pstate" where
  "unknownLoop s = (if c s \<noteq> [] then unknownLoop (take_char s) else s)"
  by pat_completeness auto
termination
  by (relation "measure remaining") (auto intro!: remaining_take_char)

declare unknownLoop.simps [simp del]


text \<open>
  The number branch of \<^verbatim>\<open>getToken\<close>: an optional sign or a zero, the digits, an optional
  fraction and an optional exponent.
\<close>

definition lexSign :: "pstate \<Rightarrow> error + pstate" where
  "lexSign s =
     (if c s = js ''-'' then
        (let s1 = take_char s in
         if \<not> isDigit (c s1)
         then Inl (createSyntaxError Invalid_number_digit_expected (Some (index s1)) s1)
         else Inr s1)
      else if c s = js ''0'' then Inr (take_char s)
      else Inr s)"

definition lexFraction :: "pstate \<Rightarrow> error + pstate" where
  "lexFraction s =
     (if c s = js ''.'' then
        (let s1 = take_char s in
         if \<not> isDigit (c s1)
         then Inl (createSyntaxError Invalid_number_digit_expected (Some (index s1)) s1)
         else Inr (digitLoop s1))
      else Inr s)"

definition lexExponent :: "pstate \<Rightarrow> error + pstate" where
  "lexExponent s =
     (if c s = js ''e'' \<or> c s = js ''E'' then
        (let s1 = take_char s;
             s2 = (if c s1 = js ''+'' \<or> c s1 = js ''-'' then take_char s1 else s1) in
         if \<not> isDigit (c s2)
         then Inl (createSyntaxError Invalid_number_digit_expected (Some (index s2)) s2)
         else Inr (digitLoop s2))
      else Inr s)"

definition lexNumber :: "pstate \<Rightarrow> error + pstate" where
  "lexNumber s =
     (case lexSign s of
        Inl e \<Rightarrow> Inl e
      | Inr s1 \<Rightarrow>
          (case lexFraction (digitLoop s1) of
             Inl e \<Rightarrow> Inl e
           | Inr s2 \<Rightarrow> lexExponent s2))"

text \<open>
  The string branch. \<open>readHex\<close> is the loop \<^verbatim>\<open>for (let u = 0; u < 4; u++)\<close>, counting the
  iterations that are left; \<open>parseInt16\<close> is \<^verbatim>\<open>parseInt(hex, 16)\<close> on hexadecimal digits and
  \<open>fromCharCode\<close> takes the number modulo \<open>2 ^ 16\<close>.
\<close>

definition hexval :: "jschar \<Rightarrow> nat" where
  "hexval x =
     (if 0x30 \<le> x \<and> x \<le> 0x39 then unat x - 0x30
      else if 0x61 \<le> x \<and> x \<le> 0x66 then unat x - 0x61 + 10
      else unat x - 0x41 + 10)"

definition parseInt16 :: "jsstring \<Rightarrow> nat" where
  "parseInt16 hex = foldl (\<lambda>a d. a * 16 + hexval d) 0 hex"

definition fromCharCode :: "nat \<Rightarrow> jsstring" where
  "fromCharCode n = [word_of_nat n]"

fun readHex :: "nat \<Rightarrow> jsstring \<Rightarrow> pstate \<Rightarrow> error + (jsstring \<times> pstate)" where
  "readHex 0 hex s = Inr (hex, s)"
| "readHex (Suc u) hex s =
     (if \<not> isHex (c s) then Inl (createSyntaxError Invalid_unicode_character None s)
      else readHex u (hex @ c s) (js_next s))"

lemma readHex_remaining:
  "readHex u hex s = Inr (hex', s') \<Longrightarrow> remaining s' \<le> remaining s"
proof (induction u arbitrary: hex s)
  case 0
  then show ?case by simp
next
  case (Suc u)
  from Suc.prems have "readHex u (hex @ c s) (js_next s) = Inr (hex', s')"
    by (simp split: if_splits)
  then have "remaining s' \<le> remaining (js_next s)"
    by (rule Suc.IH)
  then show ?case
    using remaining_js_next_le [of s] by simp
qed

function stringLoop :: "pstate \<Rightarrow> error + pstate" where
  "stringLoop s =
     (if c s \<noteq> [] \<and> c s \<noteq> [0x22] then
        (if c s = [0x5C] then
           (let s1 = js_next s in
            case ESCAPE_CHARACTERS (c s1) of
              Some unescaped \<Rightarrow> stringLoop (js_next (s1\<lparr>token := token s1 @ unescaped\<rparr>))
            | None \<Rightarrow>
                if c s1 = js ''u'' then
                  (case readHex 4 [] (js_next s1) of
                     Inl e \<Rightarrow> Inl e
                   | Inr (hex, s2) \<Rightarrow>
                       stringLoop (s2\<lparr>token := token s2 @ fromCharCode (parseInt16 hex)\<rparr>))
                else Inl (createSyntaxError (Invalid_escape_character (c s1)) (Some (index s1)) s1))
         else stringLoop (take_char s))
      else Inr s)"
  by pat_completeness auto
termination
proof (relation "measure remaining")
  show "wf (measure remaining)" by simp
next
  fix s s1 unescaped
  assume "c s \<noteq> [] \<and> c s \<noteq> [0x22]" and "s1 = js_next s"
  then have "remaining (js_next s1) \<le> remaining s1" and "remaining s1 < remaining s"
    by (simp_all add: remaining_js_next_le remaining_js_next)
  then show "(js_next (s1\<lparr>token := token s1 @ unescaped\<rparr>), s) \<in> measure remaining"
    by (simp add: js_next_def remaining_def)
next
  fix s s1 x2 hex s2
  assume a: "c s \<noteq> [] \<and> c s \<noteq> [0x22]" "s1 = js_next s"
    and r: "readHex 4 [] (js_next s1) = Inr x2" "(hex, s2) = x2"
  from r have "remaining s2 \<le> remaining (js_next s1)"
    using readHex_remaining [of 4 "[]" "js_next s1" hex s2] by simp
  moreover have "remaining (js_next s1) \<le> remaining s1"
    by (rule remaining_js_next_le)
  moreover from a have "remaining s1 < remaining s"
    by (simp add: remaining_js_next)
  ultimately show "(s2\<lparr>token := token s2 @ fromCharCode (parseInt16 hex)\<rparr>, s) \<in> measure remaining"
    by simp
next
  fix s :: pstate
  assume "c s \<noteq> [] \<and> c s \<noteq> [0x22]"
  then show "(take_char s, s) \<in> measure remaining"
    by (simp add: remaining_take_char)
qed

declare stringLoop.simps [simp del]

definition lexString :: "pstate \<Rightarrow> error + pstate" where
  "lexString s =
     (case stringLoop (js_next s) of
        Inl e \<Rightarrow> Inl e
      | Inr s1 \<Rightarrow>
          if c s1 \<noteq> [0x22] then Inl (createSyntaxError End_of_string_expected None s1)
          else Inr (js_next s1))"

definition getToken :: "pstate \<Rightarrow> error + pstate" where
  "getToken s0 =
     (let s = skipWhitespace (s0\<lparr>tokenType := NULL, token := []\<rparr>) in
      if DELIMITERS (c s) then Inr (js_next (s\<lparr>tokenType := DELIMITER, token := c s\<rparr>))
      else if isDigit (c s) \<or> c s = js ''-'' then lexNumber (s\<lparr>tokenType := NUMBER\<rparr>)
      else if c s = [0x22] then lexString (s\<lparr>tokenType := STRING\<rparr>)
      else if isAlpha (c s) then Inr (alphaLoop (s\<lparr>tokenType := SYMBOL\<rparr>))
      else
        (let s1 = unknownLoop (s\<lparr>tokenType := UNKNOWN\<rparr>) in
         Inl (createSyntaxError (Syntax_error_in_part (token s1)) None s1)))"


section \<open>Numbers\<close>

text \<open>
  \<^verbatim>\<open>token/1\<close> converts the token to a Number and divides by one, which changes nothing.
  \<open>toNumber\<close> reads a literal of the shape \<open>getToken\<close> produces (a sign, digits, a
  fraction, an exponent) as the decimal \<open>d * 10 ^ k\<close> and rounds it to the nearest double,
  ties to even. JavaScript fixes this rounding for literals of at most 20 significant
  digits. For a string of another shape the model answers \<open>NaN\<close>; \<open>parseNumber\<close> passes
  none.
\<close>

function bitlen :: "int \<Rightarrow> int" where
  "bitlen n = (if n \<le> 0 then 0 else 1 + bitlen (n div 2))"
  by pat_completeness auto
termination
  by (relation "measure nat") auto

declare bitlen.simps [simp del]

definition roundDouble :: "bool \<Rightarrow> int \<Rightarrow> int \<Rightarrow> jsnumber" where
  "roundDouble sg d k =
     (if d = 0 then Double sg 0 (-1074)
      else
        (let p = (if 0 \<le> k then d * 10 ^ nat k else d);
             q = (if 0 \<le> k then 1 else 10 ^ nat (- k));
             e0 = bitlen p - bitlen q;
             e = (if (if 0 \<le> e0 then 2 ^ nat e0 * q \<le> p else q \<le> p * 2 ^ nat (- e0))
                  then e0 else e0 - 1);
             t = max e (-1022) - 52;
             num = (if 0 \<le> t then p else p * 2 ^ nat (- t));
             den = (if 0 \<le> t then q * 2 ^ nat t else q);
             quo = num div den;
             r = num mod den;
             n = (if 2 * r < den then quo
                  else if den < 2 * r then quo + 1
                  else if even quo then quo else quo + 1);
             n' = (if n = 2 ^ 53 then 2 ^ 52 else n);
             t' = (if n = 2 ^ 53 then t + 1 else t)
         in if 971 < t' then Infinity sg else Double sg n' t'))"

definition isDecimalDigit :: "jschar \<Rightarrow> bool" where
  "isDecimalDigit x = (0x30 \<le> x \<and> x \<le> 0x39)"

definition digitsValue :: "jsstring \<Rightarrow> int" where
  "digitsValue ds = foldl (\<lambda>a x. a * 10 + (uint x - 0x30)) 0 ds"

fun readExponent :: "jsstring \<Rightarrow> (int \<times> jsstring) option" where
  "readExponent [] = Some (0, [])"
| "readExponent (x # xs) =
     (if x = 0x65 \<or> x = 0x45 then
        (let sg = (xs \<noteq> [] \<and> hd xs = 0x2D);
             ys = (if xs \<noteq> [] \<and> (hd xs = 0x2B \<or> hd xs = 0x2D) then tl xs else xs);
             ds = takeWhile isDecimalDigit ys
         in if ds = [] then None
            else Some (if sg then - digitsValue ds else digitsValue ds,
                       dropWhile isDecimalDigit ys))
      else Some (0, x # xs))"

fun readFraction :: "jsstring \<Rightarrow> (jsstring \<times> jsstring) option" where
  "readFraction [] = Some ([], [])"
| "readFraction (x # xs) =
     (if x = 0x2E then
        (let ds = takeWhile isDecimalDigit xs
         in if ds = [] then None else Some (ds, dropWhile isDecimalDigit xs))
      else Some ([], x # xs))"

definition toNumber :: "jsstring \<Rightarrow> jsnumber" where
  "toNumber tok =
     (let sg = (tok \<noteq> [] \<and> hd tok = 0x2D);
          r0 = (if sg then tl tok else tok);
          ip = takeWhile isDecimalDigit r0
      in if ip = [] then NaN
         else
           (case readFraction (dropWhile isDecimalDigit r0) of
              None \<Rightarrow> NaN
            | Some (fp, r1) \<Rightarrow>
                (case readExponent r1 of
                   None \<Rightarrow> NaN
                 | Some (ex, r2) \<Rightarrow>
                     if r2 \<noteq> [] then NaN
                     else roundDouble sg (digitsValue (ip @ fp)) (ex - int (length fp)))))"

section \<open>The store\<close>

text \<open>
  Reading a JavaScript array out of range gives \<^verbatim>\<open>undefined\<close>; writing past its end and
  raising its \<^verbatim>\<open>length\<close> fill it with holes, which read as \<^verbatim>\<open>undefined\<close>; lowering its
  \<^verbatim>\<open>length\<close> truncates it.
\<close>

definition js_get :: "jsvalue list \<Rightarrow> nat \<Rightarrow> jsvalue" where
  "js_get xs i = (if i < length xs then xs ! i else JUndefined)"

definition js_set :: "jsvalue list \<Rightarrow> nat \<Rightarrow> jsvalue \<Rightarrow> jsvalue list" where
  "js_set xs i v =
     (if i < length xs then xs[i := v]
      else xs @ replicate (i - length xs) JUndefined @ [v])"

definition js_set_length :: "jsvalue list \<Rightarrow> nat \<Rightarrow> jsvalue list" where
  "js_set_length xs n =
     (if n \<le> length xs then take n xs else xs @ replicate (n - length xs) JUndefined)"

definition alloc :: "container \<Rightarrow> pstate \<Rightarrow> addr \<times> pstate" where
  "alloc x s = (length (heap s), s\<lparr>heap := heap s @ [x]\<rparr>)"

fun put_own :: "jsstring \<Rightarrow> jsvalue \<Rightarrow> (jsstring \<times> jsvalue) list \<Rightarrow> (jsstring \<times> jsvalue) list" where
  "put_own k v [] = [(k, v)]"
| "put_own k v (p # ps) = (if fst p = k then (k, v) # ps else p # put_own k v ps)"

text \<open>
  An assignment \<^verbatim>\<open>object[key] = value\<close> creates or updates an own property of the
  object, but for the key \<^verbatim>\<open>__proto__\<close> as long as the object inherits the accessor of
  that name from \<^verbatim>\<open>Object.prototype\<close>: then the setter makes an object or \<^verbatim>\<open>null\<close> the
  prototype, throws a TypeError when that would close a cycle, and ignores any other
  value. A prototype chain has no cycle, so it has at most as many objects as the store;
  that bounds the walks along it.
\<close>

fun inheritsProtoSetter :: "container list \<Rightarrow> nat \<Rightarrow> addr \<Rightarrow> bool" where
  "inheritsProtoSetter h 0 a = False"
| "inheritsProtoSetter h (Suc n) a =
     (if a < length h then
        (case h ! a of
           JArray xs \<Rightarrow> True
         | JObject p props \<Rightarrow>
             if map_of props (js ''__proto__'') \<noteq> None then False
             else (case p of
                     ProtoObject \<Rightarrow> True
                   | ProtoNull \<Rightarrow> False
                   | ProtoRef b \<Rightarrow> inheritsProtoSetter h n b))
      else False)"

fun onProtoChain :: "container list \<Rightarrow> nat \<Rightarrow> addr \<Rightarrow> addr \<Rightarrow> bool" where
  "onProtoChain h 0 b a = False"
| "onProtoChain h (Suc n) b a =
     (b = a \<or>
      (b < length h \<and>
       (case h ! b of
          JArray xs \<Rightarrow> False
        | JObject p props \<Rightarrow>
            (case p of ProtoRef b' \<Rightarrow> onProtoChain h n b' a | ProtoObject \<Rightarrow> False | ProtoNull \<Rightarrow> False))))"

definition setProperty :: "addr \<Rightarrow> jsstring \<Rightarrow> jsvalue \<Rightarrow> pstate \<Rightarrow> error + pstate" where
  "setProperty obj key v s =
     (if obj < length (heap s) then
        (case heap s ! obj of
           JArray xs \<Rightarrow> Inr s
         | JObject p props \<Rightarrow>
             if key = js ''__proto__'' \<and> inheritsProtoSetter (heap s) (length (heap s)) obj then
               (case v of
                  JRef b \<Rightarrow>
                    if p = ProtoRef b then Inr s
                    else if onProtoChain (heap s) (length (heap s)) b obj
                    then Inl TypeError_Cyclic_proto
                    else Inr (s\<lparr>heap := (heap s)[obj := JObject (ProtoRef b) props]\<rparr>)
                | JNull \<Rightarrow> Inr (s\<lparr>heap := (heap s)[obj := JObject ProtoNull props]\<rparr>)
                | JUndefined \<Rightarrow> Inr s
                | JBool b \<Rightarrow> Inr s
                | JNumber x \<Rightarrow> Inr s
                | JString x \<Rightarrow> Inr s)
             else Inr (s\<lparr>heap := (heap s)[obj := JObject p (put_own key v props)]\<rparr>))
      else Inr s)"

text \<open>\<^verbatim>\<open>array.push(value)\<close> and \<^verbatim>\<open>array.length\<close>, for the address of an array.\<close>

definition push :: "addr \<Rightarrow> jsvalue \<Rightarrow> pstate \<Rightarrow> pstate" where
  "push arr v s =
     (if arr < length (heap s) then
        (case heap s ! arr of
           JArray xs \<Rightarrow> s\<lparr>heap := (heap s)[arr := JArray (xs @ [v])]\<rparr>
         | JObject p props \<Rightarrow> s)
      else s)"

definition arrayLength :: "addr \<Rightarrow> pstate \<Rightarrow> nat" where
  "arrayLength arr s =
     (if arr < length (heap s) then
        (case heap s ! arr of JArray xs \<Rightarrow> length xs | JObject p props \<Rightarrow> 0)
      else 0)"

text \<open>\<^verbatim>\<open>n + ''\<close>, the decimal digits of an array length.\<close>

fun numberToString :: "nat \<Rightarrow> jsstring" where
  "numberToString n =
     (if n < 10 then [word_of_nat (0x30 + n)]
      else numberToString (n div 10) @ [word_of_nat (0x30 + n mod 10)])"

declare numberToString.simps [simp del]

text \<open>\<^verbatim>\<open>object.$ref\<close> looks the property up along the prototype chain.\<close>

fun getRef :: "container list \<Rightarrow> nat \<Rightarrow> addr \<Rightarrow> jsvalue" where
  "getRef h 0 a = JUndefined"
| "getRef h (Suc n) a =
     (if a < length h then
        (case h ! a of
           JArray xs \<Rightarrow> JUndefined
         | JObject p props \<Rightarrow>
             (case map_of props (js ''$ref'') of
                Some v \<Rightarrow> v
              | None \<Rightarrow>
                  (case p of
                     ProtoRef b \<Rightarrow> getRef h n b
                   | ProtoObject \<Rightarrow> JUndefined
                   | ProtoNull \<Rightarrow> JUndefined)))
      else JUndefined)"

definition dollar_ref :: "addr \<Rightarrow> pstate \<Rightarrow> jsvalue" where
  "dollar_ref obj s = getRef (heap s) (length (heap s)) obj"

text \<open>\<^verbatim>\<open>Object.keys(object)\<close>: the object's own properties.\<close>

definition keys :: "addr \<Rightarrow> pstate \<Rightarrow> jsstring list" where
  "keys obj s =
     (if obj < length (heap s) then
        (case heap s ! obj of
           JObject p props \<Rightarrow> map fst props
         | JArray xs \<Rightarrow> map numberToString [0..<length xs])
      else [])"

definition isString :: "jsvalue \<Rightarrow> bool" where
  "isString v = (case v of JString x \<Rightarrow> True | _ \<Rightarrow> False)"

definition isCircular :: "addr \<Rightarrow> pstate \<Rightarrow> bool" where
  "isCircular obj s = (isString (dollar_ref obj s) \<and> length (keys obj s) = 1)"


section \<open>The collaborators\<close>

text \<open>
  The modules \<^verbatim>\<open>config\<close>, \<^verbatim>\<open>pointer\<close> and \<^verbatim>\<open>revive\<close> are parameters of the parser:
  \<open>circularRefs\<close> is \<^verbatim>\<open>config().circularRefs\<close>, \<open>parsePointer\<close> turns the value of
  \<^verbatim>\<open>object.$ref\<close> into path segments or throws, and \<open>revive\<close> applies a reviver of type
  \<open>'r\<close> to the finished tree in the store, or throws. They are functions: each returns,
  and returns the same for the same arguments.
\<close>

record 'r env =
  circularRefs :: bool
  parsePointer :: "jsvalue \<Rightarrow> error + jsstring list"
  revive :: "jsvalue \<Rightarrow> 'r \<Rightarrow> container list \<Rightarrow> error + jsvalue \<times> container list"

section \<open>The grammar parser\<close>

definition parseEnd :: "pstate \<Rightarrow> error + jsvalue \<times> pstate" where
  "parseEnd s =
     (if token s = [] then Inl (createSyntaxError Unexpected_end_of_json_string None s)
      else Inl (createSyntaxError Value_expected None s))"

definition returning :: "jsvalue \<Rightarrow> error + pstate \<Rightarrow> error + jsvalue \<times> pstate" where
  "returning v r = (case r of Inl e \<Rightarrow> Inl e | Inr s \<Rightarrow> Inr (v, s))"

definition parseSymbol :: "pstate \<Rightarrow> error + jsvalue \<times> pstate" where
  "parseSymbol s =
     (if tokenType s = SYMBOL then
        (if token s = js ''true'' then returning (JBool True) (getToken s)
         else if token s = js ''false'' then returning (JBool False) (getToken s)
         else if token s = js ''null'' then returning JNull (getToken s)
         else Inl (createSyntaxError (Unknown_symbol (token s)) None s))
      else parseEnd s)"

definition parseNumber :: "pstate \<Rightarrow> error + jsvalue \<times> pstate" where
  "parseNumber s =
     (if tokenType s = NUMBER then
        (let number = toNumber (token s) in returning (JNumber number) (getToken s))
      else parseSymbol s)"

definition parseString :: "pstate \<Rightarrow> error + jsvalue \<times> pstate" where
  "parseString s =
     (if tokenType s = STRING then
        (let str = token s in returning (JString str) (getToken s))
      else parseNumber s)"

text \<open>
  The loop of \<open>parseCircular\<close> throws at the first index where the pointer's segment is
  not the entry of \<open>path\<close>; the error is the same at every index.
\<close>

definition parseCircular :: "'r env \<Rightarrow> addr \<Rightarrow> pstate \<Rightarrow> error + jsvalue \<times> pstate" where
  "parseCircular env obj s =
     (if \<not> circularRefs env then Inr (JRef obj, s)
      else
        (case parsePointer env (dollar_ref obj s) of
           Inl e \<Rightarrow> Inl e
         | Inr pointerPath \<Rightarrow>
             if list_ex (\<lambda>i. JString (pointerPath ! i) \<noteq> js_get (path s) i) [0..<length pointerPath]
             then Inl (Error_Invalid_circular_reference (dollar_ref obj s))
             else Inr (js_get (stack s) (length pointerPath), s)))"

text \<open>What \<open>parseObject\<close> does after its loop, and \<open>parseArray\<close> after its own.\<close>

definition closeObject :: "'r env \<Rightarrow> addr \<Rightarrow> nat \<Rightarrow> pstate \<Rightarrow> error + jsvalue \<times> pstate" where
  "closeObject env obj stackIndex s =
     (if tokenType s \<noteq> DELIMITER \<or> token s \<noteq> js ''}''
      then Inl (createSyntaxError Comma_or_end_of_object_expected None s)
      else
        (case getToken s of
           Inl e \<Rightarrow> Inl e
         | Inr s1 \<Rightarrow>
             if isCircular obj s1 then parseCircular env obj s1
             else Inr (JRef obj, s1\<lparr>stack := js_set_length (stack s1) stackIndex,
                                    path := js_set_length (path s1) stackIndex\<rparr>)))"

definition closeArray :: "addr \<Rightarrow> nat \<Rightarrow> pstate \<Rightarrow> error + jsvalue \<times> pstate" where
  "closeArray arr stackIndex s =
     (if tokenType s \<noteq> DELIMITER \<or> token s \<noteq> js '']''
      then Inl (createSyntaxError Comma_or_end_of_array_expected None s)
      else
        (case getToken s of
           Inl e \<Rightarrow> Inl e
         | Inr s1 \<Rightarrow>
             Inr (JRef arr, s1\<lparr>stack := js_set_length (stack s1) stackIndex,
                                path := js_set_length (path s1) stackIndex\<rparr>)))"

text \<open>
  The pieces of \<open>parseObject\<close> between its recursive calls. \<open>openObject\<close> runs from the
  opening brace to the loop: it returns the empty object (\<open>Inl\<close>), or the new object,
  its stack index and the state in which the loop starts (\<open>Inr\<close>). \<open>objectKey\<close> is the
  loop body up to the recursive call, \<open>objectValue\<close> the assignment and what follows: it
  ends the loop with the result of \<open>closeObject\<close> (\<open>Inl\<close>) or continues with the next
  token (\<open>Inr\<close>). The pieces of \<open>parseArray\<close> are alike.
\<close>

definition openObject :: "pstate \<Rightarrow> (error + jsvalue \<times> pstate) + (addr \<times> nat \<times> pstate)" where
  "openObject s =
     (case getToken s of
        Inl e \<Rightarrow> Inl (Inl e)
      | Inr s1 \<Rightarrow>
          (case alloc (JObject ProtoObject []) s1 of
             (object, s2) \<Rightarrow>
               if tokenType s2 = DELIMITER \<and> token s2 = js ''}'' then
                 Inl (returning (JRef object) (getToken s2))
               else
                 (let stackIndex = length (stack s2)
                  in Inr (object, stackIndex, s2\<lparr>stack := js_set (stack s2) stackIndex (JRef object)\<rparr>))))"

definition objectKey :: "nat \<Rightarrow> pstate \<Rightarrow> error + jsstring \<times> pstate" where
  "objectKey stackIndex s =
     (if tokenType s \<noteq> STRING then Inl (createSyntaxError Object_key_expected None s)
      else
        (let key = token s in
         case getToken s of
           Inl e \<Rightarrow> Inl e
         | Inr s1 \<Rightarrow>
             if tokenType s1 \<noteq> DELIMITER \<or> token s1 \<noteq> js '':''
             then Inl (createSyntaxError Colon_expected None s1)
             else
               (case getToken s1 of
                  Inl e \<Rightarrow> Inl e
                | Inr s2 \<Rightarrow> Inr (key, s2\<lparr>path := js_set (path s2) stackIndex (JString key)\<rparr>))))"

definition objectValue ::
  "'r env \<Rightarrow> addr \<Rightarrow> nat \<Rightarrow> jsstring \<Rightarrow> jsvalue \<Rightarrow> pstate \<Rightarrow> (error + jsvalue \<times> pstate) + pstate" where
  "objectValue env object stackIndex key v s =
     (case setProperty object key v s of
        Inl e \<Rightarrow> Inl (Inl e)
      | Inr s1 \<Rightarrow>
          if tokenType s1 \<noteq> DELIMITER \<or> token s1 \<noteq> js '',''
          then Inl (closeObject env object stackIndex s1)
          else (case getToken s1 of Inl e \<Rightarrow> Inl (Inl e) | Inr s2 \<Rightarrow> Inr s2))"

definition openArray :: "pstate \<Rightarrow> (error + jsvalue \<times> pstate) + (addr \<times> nat \<times> pstate)" where
  "openArray s =
     (case getToken s of
        Inl e \<Rightarrow> Inl (Inl e)
      | Inr s1 \<Rightarrow>
          (case alloc (JArray []) s1 of
             (array, s2) \<Rightarrow>
               if tokenType s2 = DELIMITER \<and> token s2 = js '']'' then
                 Inl (returning (JRef array) (getToken s2))
               else
                 (let stackIndex = length (stack s2)
                  in Inr (array, stackIndex, s2\<lparr>stack := js_set (stack s2) stackIndex (JRef array)\<rparr>))))"

definition arrayIndex :: "addr \<Rightarrow> nat \<Rightarrow> pstate \<Rightarrow> pstate" where
  "arrayIndex array stackIndex s =
     s\<lparr>path := js_set (path s) stackIndex (JString (numberToString (arrayLength array s)))\<rparr>"

definition arrayValue ::
  "addr \<Rightarrow> nat \<Rightarrow> jsvalue \<Rightarrow> pstate \<Rightarrow> (error + jsvalue \<times> pstate) + pstate" where
  "arrayValue array stackIndex v s =
     (let s1 = push array v s in
      if tokenType s1 \<noteq> DELIMITER \<or> token s1 \<noteq> js '',''
      then Inl (closeArray array stackIndex s1)
      else (case getToken s1 of Inl e \<Rightarrow> Inl (Inl e) | Inr s2 \<Rightarrow> Inr s2))"

text \<open>
  The recursive descent. The number after the collaborators bounds the nested calls and
  loop iterations still allowed; the result is \<open>None\<close> when the bound is used up,
  \<open>Some (Inl e)\<close> when the parser throws \<open>e\<close>, and \<open>Some (Inr (v, s))\<close> when it returns
  \<open>v\<close> in the state \<open>s\<close>. \<open>objectLoop\<close> and \<open>arrayLoop\<close> are the \<^verbatim>\<open>while (true)\<close> loops
  with what follows them.
\<close>

function (sequential) parseObject :: "'r env \<Rightarrow> nat \<Rightarrow> pstate \<Rightarrow> (error + jsvalue \<times> pstate) option"
  and objectLoop :: "'r env \<Rightarrow> nat \<Rightarrow> addr \<Rightarrow> nat \<Rightarrow> pstate \<Rightarrow> (error + jsvalue \<times> pstate) option"
  and parseArray :: "'r env \<Rightarrow> nat \<Rightarrow> pstate \<Rightarrow> (error + jsvalue \<times> pstate) option"
  and arrayLoop :: "'r env \<Rightarrow> nat \<Rightarrow> addr \<Rightarrow> nat \<Rightarrow> pstate \<Rightarrow> (error + jsvalue \<times> pstate) option"
where
  "parseObject env 0 s = None"
| "parseObject env (Suc n) s =
     (if tokenType s = DELIMITER \<and> token s = js ''{'' then
        (case openObject s of
           Inl r \<Rightarrow> Some r
         | Inr (object, stackIndex, s1) \<Rightarrow> objectLoop env (Suc n) object stackIndex s1)
      else parseArray env (Suc n) s)"
| "objectLoop env 0 object stackIndex s = None"
| "objectLoop env (Suc n) object stackIndex s =
     (case objectKey stackIndex s of
        Inl e \<Rightarrow> Some (Inl e)
      | Inr (key, s1) \<Rightarrow>
          (case parseObject env n s1 of
             None \<Rightarrow> None
           | Some (Inl e) \<Rightarrow> Some (Inl e)
           | Some (Inr (v, s2)) \<Rightarrow>
               (case objectValue env object stackIndex key v s2 of
                  Inl r \<Rightarrow> Some r
                | Inr s3 \<Rightarrow> objectLoop env n object stackIndex s3)))"
| "parseArray env n s =
     (if tokenType s = DELIMITER \<and> token s = js ''['' then
        (case openArray s of
           Inl r \<Rightarrow> Some r
         | Inr (array, stackIndex, s1) \<Rightarrow> arrayLoop env n array stackIndex s1)
      else Some (parseString s))"
| "arrayLoop env 0 array stackIndex s = None"
| "arrayLoop env (Suc n) array stackIndex s =
     (case parseObject env n (arrayIndex array stackIndex s) of
        None \<Rightarrow> None
      | Some (Inl e) \<Rightarrow> Some (Inl e)
      | Some (Inr (v, s1)) \<Rightarrow>
          (case arrayValue array stackIndex v s1 of
             Inl r \<Rightarrow> Some r
           | Inr s2 \<Rightarrow> arrayLoop env n array stackIndex s2))"
  by pat_completeness auto
termination
  by (relation "measure (\<lambda>x. case x of
      Inl (Inl (env, n, s)) \<Rightarrow> 3 * n + 2
    | Inl (Inr (env, n, obj, i, s)) \<Rightarrow> 3 * n
    | Inr (Inl (env, n, s)) \<Rightarrow> 3 * n + 1
    | Inr (Inr (env, n, arr, i, s)) \<Rightarrow> 3 * n)") auto


text \<open>
  \<open>parse\<close> starts from the module state \<open>s0\<close> that an earlier call left behind. The
  addresses of the store count the objects and arrays this call allocates.
\<close>

definition initialize :: "jsstring \<Rightarrow> pstate \<Rightarrow> pstate" where
  "initialize text s0 =
     s0\<lparr>jsonText := text, index := 0, c := charAt text 0, token := [], tokenType := NULL,
        stack := [], path := [], heap := []\<rparr>"

definition parse :: "'r env \<Rightarrow> nat \<Rightarrow> jsstring \<Rightarrow> 'r option \<Rightarrow> pstate \<Rightarrow> (error + jsvalue \<times> pstate) option" where
  "parse env n text reviver s0 =
     (case getToken (initialize text s0) of
        Inl e \<Rightarrow> Some (Inl e)
      | Inr s1 \<Rightarrow>
          (case parseObject env n s1 of
             None \<Rightarrow> None
           | Some (Inl e) \<Rightarrow> Some (Inl e)
           | Some (Inr (json, s2)) \<Rightarrow>
               if token s2 \<noteq> [] then Some (Inl (createSyntaxError Unexpected_characters None s2))
               else
                 (case reviver of
                    None \<Rightarrow> Some (Inr (json, s2))
                  | Some r \<Rightarrow>
                      (case revive env json r (heap s2) of
                         Inl e \<Rightarrow> Some (Inl e)
                       | Inr (v, h) \<Rightarrow> Some (Inr (v, s2\<lparr>heap := h\<rparr>))))))"


section \<open>Observing a call\<close>

text \<open>
  \<open>result\<close> is what the caller of \<open>parse\<close> gets, \<open>finalState\<close> the module state that a
  call which returns leaves behind. \<open>moduleLoaded\<close> holds the values the module's variables
  are declared with. \<open>pointerTable\<close> is a pointer parser that is given by its answers on
  the pointers of an example and throws on every other argument.
\<close>

definition result :: "(error + jsvalue \<times> pstate) option \<Rightarrow> (error + jsvalue) option" where
  "result r = map_option (map_sum id fst) r"

definition finalState :: "(error + jsvalue \<times> pstate) option \<Rightarrow> pstate option" where
  "finalState r = (case r of Some (Inr (v, s)) \<Rightarrow> Some s | _ \<Rightarrow> None)"

definition moduleLoaded :: pstate where
  "moduleLoaded = \<lparr>jsonText = [], index = 0, c = [], token = [], tokenType = NULL,
     path = [], stack = [], heap = []\<rparr>"

definition pointerTable :: "(jsstring \<times> jsstring list) list \<Rightarrow> jsvalue \<Rightarrow> error + jsstring list" where
  "pointerTable tab v =
     (case v of
        JString p \<Rightarrow> (case map_of tab p of Some segments \<Rightarrow> Inr segments | None \<Rightarrow> Inl (Thrown p))
      | _ \<Rightarrow> Inl (Thrown []))"

definition exampleEnv :: "bool \<Rightarrow> (jsstring \<times> jsstring list) list \<Rightarrow> unit env" where
  "exampleEnv enabled tab =
     \<lparr>circularRefs = enabled, parsePointer = pointerTable tab, revive = (\<lambda>v r h. Inr (v, h))\<rparr>"

section \<open>Number literals\<close>

text \<open>
  C1 says that the parse result preserves a number literal exactly, as the validated
  literal text with its source position. \<open>parseNumber\<close> returns \<^verbatim>\<open>token/1\<close> instead, a
  double without a position: the literals \<open>9007199254740993\<close> and \<open>9007199254740992\<close>
  both give the double \<open>2 ^ 53\<close>, so the first one is lost.
\<close>

theorem parseNumber_rounds_literal:
  "result (parse (exampleEnv False []) 1 (js ''9007199254740993'') None moduleLoaded)
     = Some (Inr (JNumber (Double False 4503599627370496 1)))
   \<and> result (parse (exampleEnv False []) 1 (js ''9007199254740992'') None moduleLoaded)
     = Some (Inr (JNumber (Double False 4503599627370496 1)))"
  by code_simp

text \<open>
  C3 says that the tokenizer forbids a leading zero before further digits, and that \<open>01\<close>,
  \<open>-\<close>, \<open>1.\<close> and \<open>1e\<close> each fail with a digit-expected error at the position after the
  fragment. The last three do, at 1, 2 and 2. After the zero of \<open>01\<close> the tokenizer runs
  the digit loop all the same: the token is \<open>01\<close> and \<open>parse\<close> returns the number one, as
  it does for the text \<open>1\<close>.
\<close>

theorem leading_zero_accepted:
  "map_sum id token (getToken (initialize (js ''01'') moduleLoaded)) = Inr (js ''01'')
   \<and> result (parse (exampleEnv False []) 1 (js ''01'') None moduleLoaded)
     = Some (Inr (JNumber (Double False 4503599627370496 (- 52))))
   \<and> result (parse (exampleEnv False []) 1 (js ''1'') None moduleLoaded)
     = Some (Inr (JNumber (Double False 4503599627370496 (- 52))))
   \<and> result (parse (exampleEnv False []) 1 (js ''-'') None moduleLoaded)
     = Some (Inl (SyntaxError Invalid_number_digit_expected 1))
   \<and> result (parse (exampleEnv False []) 1 (js ''1.'') None moduleLoaded)
     = Some (Inl (SyntaxError Invalid_number_digit_expected 2))
   \<and> result (parse (exampleEnv False []) 1 (js ''1e'') None moduleLoaded)
     = Some (Inl (SyntaxError Invalid_number_digit_expected 2))"
  by code_simp

section \<open>Reference markers\<close>

text \<open>
  C2 says that the stack entry of a marker-shaped mapping is popped before the marker is
  returned when circular references are disabled, so that the stack length is the nesting
  depth after every mapping closes. \<open>closeObject\<close> returns the result of \<open>parseCircular\<close>
  before it truncates \<open>stack\<close> and \<open>path\<close>: after the text \<open>{"$ref":"#/a"}\<close> the stack
  still holds the marker and the path its key, at nesting depth zero. A mapping of
  another shape leaves the stack empty.
\<close>

theorem marker_close_leaves_stack_entry:
  \<open>map_option stack (finalState (parse (exampleEnv False []) 2 (js ''{"$ref":"#/a"}'') None moduleLoaded))
     = Some [JRef 0]
   \<and> map_option path (finalState (parse (exampleEnv False []) 2 (js ''{"$ref":"#/a"}'') None moduleLoaded))
     = Some [JString (js ''$ref'')]
   \<and> map_option stack (finalState (parse (exampleEnv False []) 2 (js ''{"href":"#/a"}'') None moduleLoaded))
     = Some []\<close>
  by code_simp

text \<open>
  With circular references enabled the entry that stayed behind shifts the containers
  opened later by one place: in \<open>{"a":{"$ref":"#"},"b":{"c":{"$ref":"#/b"}}}\<close> the
  reference \<open>#/b\<close> is resolved to the first marker object, at address 1, and not to the
  mapping under \<open>b\<close>, at address 2.
\<close>

lemma stale_entry_misresolves:
  \<open>map_option heap (finalState (parse (exampleEnv True [(js ''#'', []), (js ''#/b'', [js ''b''])]) 6
       (js ''{"a":{"$ref":"#"},"b":{"c":{"$ref":"#/b"}}}'') None moduleLoaded))
     = Some [JObject ProtoObject [(js ''a'', JRef 0), (js ''b'', JRef 2)],
             JObject ProtoObject [(js ''$ref'', JString (js ''#''))],
             JObject ProtoObject [(js ''c'', JRef 1)],
             JObject ProtoObject [(js ''$ref'', JString (js ''#/b''))]]\<close>
  by code_simp

text \<open>
  What \<open>parseCircular\<close> does when circular references are enabled and the pointer parser
  returns: a segment that is not the entry of \<open>path\<close> at its index, also where \<open>path\<close> has
  no such entry, throws; otherwise the result is \<^verbatim>\<open>stack[pointerPath.length]\<close>.
\<close>

lemma parseCircular_mismatch:
  assumes "circularRefs env" and "parsePointer env (dollar_ref obj s) = Inr pointerPath"
    and "i < length pointerPath" and "js_get (path s) i \<noteq> JString (pointerPath ! i)"
  shows "parseCircular env obj s = Inl (Error_Invalid_circular_reference (dollar_ref obj s))"
proof -
  from assms(3,4) have "\<exists>i\<in>set [0..<length pointerPath]. JString (pointerPath ! i) \<noteq> js_get (path s) i"
    by (intro bexI [of _ i]) auto
  with assms(1,2) show ?thesis
    by (simp add: parseCircular_def list_ex_iff)
qed

lemma parseCircular_match:
  assumes "circularRefs env" and "parsePointer env (dollar_ref obj s) = Inr pointerPath"
    and "\<forall>i<length pointerPath. js_get (path s) i = JString (pointerPath ! i)"
  shows "parseCircular env obj s = Inr (js_get (stack s) (length pointerPath), s)"
  using assms by (auto simp: parseCircular_def list_ex_iff)

text \<open>
  C4 says that the enabled resolver throws on every mismatch, a path longer than the stack
  included, and that it returns the live container at the stack index of the path's
  length when the whole path matches. The first part holds (\<open>parseCircular_mismatch\<close>).
  The second fails where the path is as long as the stack: for the text
  \<open>{"$ref":"#/$ref"}\<close> the path \<open>$ref\<close> matches the one entry of \<open>path\<close>, the index 1 is
  outside the stack, and \<open>parse\<close> returns \<^verbatim>\<open>undefined\<close>.
\<close>

theorem parse_self_reference_undefined:
  \<open>result (parse (exampleEnv True [(js ''#/$ref'', [js ''$ref''])]) 2 (js ''{"$ref":"#/$ref"}'') None moduleLoaded)
     = Some (Inr JUndefined)\<close>
  by code_simp

text \<open>
  C9: when circular references are enabled and the pointer path is exactly as long as
  the stack, with every segment equal to the entry of \<open>path\<close> at its index,
  \<open>parseCircular\<close> returns \<^verbatim>\<open>undefined\<close> and throws nothing.
\<close>

theorem parseCircular_undefined:
  assumes "circularRefs env" and "parsePointer env (dollar_ref obj s) = Inr pointerPath"
    and "length pointerPath = length (stack s)"
    and "\<forall>i<length pointerPath. js_get (path s) i = JString (pointerPath ! i)"
  shows "parseCircular env obj s = Inr (JUndefined, s)"
  using assms by (auto simp: parseCircular_def list_ex_iff js_get_def)

definition markerState :: pstate where
  \<open>markerState = moduleLoaded
     \<lparr>path := [JString (js ''a''), JString (js ''$ref'')], stack := [JRef 0, JRef 1],
      heap := [JObject ProtoObject [(js ''a'', JUndefined)],
               JObject ProtoObject [(js ''$ref'', JString (js ''#/a/$ref''))]]\<rparr>\<close>

theorem parseCircular_undefined_witness:
  \<open>circularRefs (exampleEnv True [(js ''#/a/$ref'', [js ''a'', js ''$ref''])])
   \<and> parsePointer (exampleEnv True [(js ''#/a/$ref'', [js ''a'', js ''$ref''])]) (dollar_ref 1 markerState)
       = Inr [js ''a'', js ''$ref'']
   \<and> length [js ''a'', js ''$ref''] = length (stack markerState)
   \<and> js_get (path markerState) 0 = JString (js ''a'')
   \<and> js_get (path markerState) 1 = JString (js ''$ref'')
   \<and> parseCircular (exampleEnv True [(js ''#/a/$ref'', [js ''a'', js ''$ref''])]) 1 markerState
       = Inr (JUndefined, markerState)\<close>
proof -
  have a: \<open>circularRefs (exampleEnv True [(js ''#/a/$ref'', [js ''a'', js ''$ref''])])\<close>
    by (simp add: exampleEnv_def)
  have b: \<open>parsePointer (exampleEnv True [(js ''#/a/$ref'', [js ''a'', js ''$ref''])]) (dollar_ref 1 markerState)
       = Inr [js ''a'', js ''$ref'']\<close>
    by code_simp
  have c0: \<open>js_get (path markerState) 0 = JString (js ''a'')\<close>
    and c1: \<open>js_get (path markerState) 1 = JString (js ''$ref'')\<close>
    by (simp_all add: markerState_def js_get_def)
  have d: \<open>length [js ''a'', js ''$ref''] = length (stack markerState)\<close>
    by (simp add: markerState_def)
  have e: \<open>\<forall>i<length [js ''a'', js ''$ref'']. js_get (path markerState) i = JString ([js ''a'', js ''$ref''] ! i)\<close>
    using c0 c1 by (simp add: less_Suc_eq)
  show ?thesis
    using a b c0 c1 d parseCircular_undefined [OF a b d e] by simp
qed

text \<open>
  C5: when circular references are disabled, \<open>parseCircular\<close> returns the marker-shaped
  mapping it is given, the same object in the same store, whatever the pointer parser,
  the stack and the path are; it consults none of them. So \<open>{"$ref":"#/a"}\<close> parses to a
  mapping with one string field.
\<close>

theorem parseCircular_disabled:
  assumes "\<not> circularRefs env"
  shows "parseCircular (env\<lparr>parsePointer := pp\<rparr>) obj (s\<lparr>stack := st, path := pa\<rparr>)
           = Inr (JRef obj, s\<lparr>stack := st, path := pa\<rparr>)"
  using assms by (simp add: parseCircular_def)

theorem parseCircular_disabled_witness:
  \<open>\<not> circularRefs (exampleEnv False []) \<and>
   parseCircular ((exampleEnv False [])\<lparr>parsePointer := pointerTable []\<rparr>) 0
       (moduleLoaded\<lparr>stack := [JRef 5], path := [JString (js ''a'')]\<rparr>)
     = Inr (JRef 0, moduleLoaded\<lparr>stack := [JRef 5], path := [JString (js ''a'')]\<rparr>)
   \<and> result (parse (exampleEnv False []) 2 (js ''{"$ref":"#/a"}'') None moduleLoaded) = Some (Inr (JRef 0))
   \<and> map_option heap (finalState (parse (exampleEnv False []) 2 (js ''{"$ref":"#/a"}'') None moduleLoaded))
     = Some [JObject ProtoObject [(js ''$ref'', JString (js ''#/a''))]]\<close>
proof -
  have d: "\<not> circularRefs (exampleEnv False [])"
    by (simp add: exampleEnv_def)
  have e: \<open>result (parse (exampleEnv False []) 2 (js ''{"$ref":"#/a"}'') None moduleLoaded) = Some (Inr (JRef 0))
   \<and> map_option heap (finalState (parse (exampleEnv False []) 2 (js ''{"$ref":"#/a"}'') None moduleLoaded))
     = Some [JObject ProtoObject [(js ''$ref'', JString (js ''#/a''))]]\<close>
    by code_simp
  show ?thesis
    using d e parseCircular_disabled [OF d, where pp = "pointerTable []" and obj = 0 and s = moduleLoaded
        and st = "[JRef 5]" and pa = "[JString (js ''a'')]"]
    by simp
qed

section \<open>Determinism\<close>

lemma initialize_forgets: "initialize text s0 = initialize text s1"
  by (cases s0, cases s1) (simp add: initialize_def)

text \<open>
  C10: \<open>parse\<close> is deterministic. It overwrites every module variable before it reads
  one, so for the same text, reviver and collaborators it gives the same result or the
  same error whatever state an earlier call left behind.
\<close>

theorem parse_deterministic:
  "parse env n text reviver s0 = parse env n text reviver s1"
  unfolding parse_def by (simp add: initialize_forgets [of _ s0 s1])


section \<open>The tokenizer advances\<close>

text \<open>
  A state is consistent when \<open>c\<close> is the character at \<open>index\<close>, as it is after every
  \<^verbatim>\<open>next()\<close> and at the start of \<open>parse\<close>. \<open>follows s s'\<close> says that \<open>s'\<close> comes after \<open>s\<close>
  in the same text, with the same stack, path and store, and not beyond the end of the
  text unless \<open>s\<close> was.
\<close>

definition consistent :: "pstate \<Rightarrow> bool" where
  "consistent s = (c s = charAt (jsonText s) (index s))"

definition follows :: "pstate \<Rightarrow> pstate \<Rightarrow> bool" where
  "follows s s' =
     (jsonText s' = jsonText s \<and> path s' = path s \<and> stack s' = stack s \<and> heap s' = heap s
      \<and> consistent s' \<and> index s \<le> index s'
      \<and> (index s \<le> length (jsonText s) \<longrightarrow> index s' \<le> length (jsonText s)))"

lemma follows_refl: "consistent s \<Longrightarrow> follows s s"
  by (simp add: follows_def)

lemma follows_trans: "follows s s' \<Longrightarrow> follows s' s'' \<Longrightarrow> follows s s''"
  by (auto simp: follows_def)

lemma follows_consistent: "follows s s' \<Longrightarrow> consistent s'"
  by (simp add: follows_def)

lemma follows_token [simp]: "follows (s\<lparr>token := t\<rparr>) s' = follows s s'"
  "follows s (s'\<lparr>token := t\<rparr>) = follows s s'"
  by (simp_all add: follows_def consistent_def)

lemma follows_tokenType [simp]: "follows (s\<lparr>tokenType := t\<rparr>) s' = follows s s'"
  "follows s (s'\<lparr>tokenType := t\<rparr>) = follows s s'"
  by (simp_all add: follows_def consistent_def)

lemma consistent_token [simp]: "consistent (s\<lparr>token := t\<rparr>) = consistent s"
  by (simp add: consistent_def)

lemma consistent_tokenType [simp]: "consistent (s\<lparr>tokenType := t\<rparr>) = consistent s"
  by (simp add: consistent_def)

lemma consistent_js_next [simp]: "consistent (js_next s)"
  by (simp add: consistent_def js_next_def)

lemma consistent_take_char [simp]: "consistent (take_char s)"
  by (simp add: take_char_def consistent_def js_next_def)

lemma consistent_nonempty: "consistent s \<Longrightarrow> c s \<noteq> [] \<Longrightarrow> index s < length (jsonText s)"
  by (auto simp: consistent_def charAt_def split: if_splits)

lemma follows_js_next: "consistent s \<Longrightarrow> c s \<noteq> [] \<Longrightarrow> follows s (js_next s)"
  using consistent_nonempty [of s]
  by (simp add: follows_def) (simp add: js_next_def)

lemma follows_take_char: "consistent s \<Longrightarrow> c s \<noteq> [] \<Longrightarrow> follows s (take_char s)"
  using follows_js_next [of "s\<lparr>token := token s @ c s\<rparr>"]
  by (simp add: take_char_def)

lemma index_js_next [simp]: "index (js_next s) = Suc (index s)"
  by (simp add: js_next_def)

lemma index_take_char [simp]: "index (take_char s) = Suc (index s)"
  by (simp add: take_char_def js_next_def)

lemma isDigit_nonempty: "isDigit x \<Longrightarrow> x \<noteq> []"
  by auto

lemma isAlpha_nonempty: "isAlpha x \<Longrightarrow> x \<noteq> []"
  by auto

lemma isHex_nonempty: "isHex x \<Longrightarrow> x \<noteq> []"
  by auto

lemma follows_skipWhitespace: "consistent s \<Longrightarrow> follows s (skipWhitespace s)"
proof (induction s rule: skipWhitespace.induct)
  case (1 s)
  show ?case
  proof (cases "c s = js '' '' \<or> c s = [0x09] \<or> c s = [0x0A] \<or> c s = [0x0D]")
    case True
    then have ne: "c s \<noteq> []" by auto
    have "follows (js_next s) (skipWhitespace (js_next s))"
      using True "1.IH" by simp
    with follows_js_next [OF "1.prems" ne] have "follows s (skipWhitespace (js_next s))"
      by (rule follows_trans)
    with True show ?thesis
      by (subst skipWhitespace.simps) simp
  next
    case False
    with "1.prems" show ?thesis
      by (subst skipWhitespace.simps) (simp add: follows_refl)
  qed
qed

lemma follows_digitLoop: "consistent s \<Longrightarrow> follows s (digitLoop s)"
proof (induction s rule: digitLoop.induct)
  case (1 s)
  show ?case
  proof (cases "isDigit (c s)")
    case True
    then have ne: "c s \<noteq> []" by auto
    have "follows (take_char s) (digitLoop (take_char s))"
      using True "1.IH" by simp
    with follows_take_char [OF "1.prems" ne] have "follows s (digitLoop (take_char s))"
      by (rule follows_trans)
    with True show ?thesis
      by (subst digitLoop.simps) simp
  next
    case False
    with "1.prems" show ?thesis
      by (subst digitLoop.simps) (simp add: follows_refl)
  qed
qed

lemma follows_alphaLoop: "consistent s \<Longrightarrow> follows s (alphaLoop s)"
proof (induction s rule: alphaLoop.induct)
  case (1 s)
  show ?case
  proof (cases "isAlpha (c s)")
    case True
    then have ne: "c s \<noteq> []" by auto
    have "follows (take_char s) (alphaLoop (take_char s))"
      using True "1.IH" by simp
    with follows_take_char [OF "1.prems" ne] have "follows s (alphaLoop (take_char s))"
      by (rule follows_trans)
    with True show ?thesis
      by (subst alphaLoop.simps) simp
  next
    case False
    with "1.prems" show ?thesis
      by (subst alphaLoop.simps) (simp add: follows_refl)
  qed
qed

lemma follows_readHex:
  "consistent s \<Longrightarrow> readHex u hex s = Inr (hex', s') \<Longrightarrow> follows s s'"
proof (induction u arbitrary: hex s)
  case 0
  then show ?case by (simp add: follows_refl)
next
  case (Suc u)
  from Suc.prems(2) have h: "isHex (c s)" and r: "readHex u (hex @ c s) (js_next s) = Inr (hex', s')"
    by (simp_all split: if_splits)
  from h have ne: "c s \<noteq> []" by auto
  have "follows (js_next s) s'"
    using Suc.IH [OF _ r] by simp
  with follows_js_next [OF Suc.prems(1) ne] show ?case
    by (rule follows_trans)
qed

lemma follows_stringLoop:
  "consistent s \<Longrightarrow> stringLoop s = Inr s' \<Longrightarrow> follows s s'"
proof (induction s arbitrary: s' rule: stringLoop.induct)
  case (1 s)
  show ?case
  proof (cases "c s \<noteq> [] \<and> c s \<noteq> [0x22]")
    case False
    with "1.prems" show ?thesis
      by (subst (asm) stringLoop.simps) (auto simp: follows_refl)
  next
    case go: True
    then have ne: "c s \<noteq> []" by simp
    note f1 = follows_js_next [OF "1.prems"(1) ne]
    show ?thesis
    proof (cases "c s = [0x5C]")
      case False
      with go "1.prems"(2) have r: "stringLoop (take_char s) = Inr s'"
        by (subst (asm) stringLoop.simps) simp
      have "follows (take_char s) s'"
        using "1.IH"(3) [OF go False _ r] by simp
      with follows_take_char [OF "1.prems"(1) ne] show ?thesis
        by (rule follows_trans)
    next
      case bs: True
      show ?thesis
      proof (cases "ESCAPE_CHARACTERS (c (js_next s))")
        case (Some unescaped)
        then have ne1: "c (js_next s) \<noteq> []"
          by (auto simp: ESCAPE_CHARACTERS_def split: if_splits)
        from go bs Some "1.prems"(2)
        have r: "stringLoop (js_next ((js_next s)\<lparr>token := token (js_next s) @ unescaped\<rparr>)) = Inr s'"
          by (subst (asm) stringLoop.simps) (simp add: Let_def)
        have "follows (js_next ((js_next s)\<lparr>token := token (js_next s) @ unescaped\<rparr>)) s'"
          using "1.IH"(2) [OF go bs refl Some _ r] by simp
        moreover have "follows (js_next s) (js_next ((js_next s)\<lparr>token := token (js_next s) @ unescaped\<rparr>))"
          using follows_js_next [of "(js_next s)\<lparr>token := token (js_next s) @ unescaped\<rparr>"] ne1 by simp
        ultimately show ?thesis
          using f1 by (blast intro: follows_trans)
      next
        case None
        with go bs "1.prems"(2) have u: "c (js_next s) = js ''u''"
          by (subst (asm) stringLoop.simps) (simp add: Let_def split: if_splits)
        with go bs None "1.prems"(2) obtain hex s2 where
          h: "readHex 4 [] (js_next (js_next s)) = Inr (hex, s2)"
          and r: "stringLoop (s2\<lparr>token := token s2 @ fromCharCode (parseInt16 hex)\<rparr>) = Inr s'"
          by (subst (asm) stringLoop.simps) (auto simp: Let_def split: sum.splits)
        have ne1: "c (js_next s) \<noteq> []" using u by simp
        have "follows (s2\<lparr>token := token s2 @ fromCharCode (parseInt16 hex)\<rparr>) s'"
          using "1.IH"(1) [OF go bs refl None u h refl _ r] follows_readHex [OF _ h]
          by (simp add: follows_consistent)
        then have "follows s2 s'" by simp
        moreover have "follows (js_next (js_next s)) s2"
          using follows_readHex [OF _ h] by simp
        moreover have "follows (js_next s) (js_next (js_next s))"
          using follows_js_next [of "js_next s"] ne1 by simp
        ultimately show ?thesis
          using f1 by (blast intro: follows_trans)
      qed
    qed
  qed
qed

lemma index_digitLoop: "isDigit (c s) \<Longrightarrow> consistent s \<Longrightarrow> index s < index (digitLoop s)"
  using follows_digitLoop [of "take_char s"]
  by (subst digitLoop.simps) (simp add: follows_def)

lemma follows_lexSign: "consistent s \<Longrightarrow> lexSign s = Inr s' \<Longrightarrow> follows s s'"
  using follows_take_char [of s]
  by (auto simp: lexSign_def Let_def follows_refl split: if_splits)

lemma follows_lexFraction: "consistent s \<Longrightarrow> lexFraction s = Inr s' \<Longrightarrow> follows s s'"
  using follows_take_char [of s] follows_digitLoop [of "take_char s"]
  by (auto simp: lexFraction_def Let_def follows_refl split: if_splits intro: follows_trans)

lemma follows_lexExponent: "consistent s \<Longrightarrow> lexExponent s = Inr s' \<Longrightarrow> follows s s'"
proof -
  assume cs: "consistent s" and r: "lexExponent s = Inr s'"
  show ?thesis
  proof (cases "c s = js ''e'' \<or> c s = js ''E''")
    case False
    with cs r show ?thesis by (simp add: lexExponent_def follows_refl)
  next
    case True
    then have ne: "c s \<noteq> []" by auto
    define s1 where "s1 = take_char s"
    define s2 where "s2 = (if c s1 = js ''+'' \<or> c s1 = js ''-'' then take_char s1 else s1)"
    have f1: "follows s s1"
      unfolding s1_def by (rule follows_take_char [OF cs ne])
    have f2: "follows s1 s2"
      using follows_take_char [of s1] follows_refl [of s1]
      by (auto simp: s2_def s1_def)
    from True r have "s' = digitLoop s2"
      by (auto simp: lexExponent_def Let_def s1_def s2_def split: if_splits)
    moreover have "follows s2 (digitLoop s2)"
      using f2 by (intro follows_digitLoop) (simp add: follows_def)
    ultimately show ?thesis
      using f1 f2 by (blast intro: follows_trans)
  qed
qed

lemma follows_lexNumber: "consistent s \<Longrightarrow> lexNumber s = Inr s' \<Longrightarrow> follows s s'"
proof -
  assume cs: "consistent s" and r: "lexNumber s = Inr s'"
  from r obtain s1 s2 where a: "lexSign s = Inr s1" and b: "lexFraction (digitLoop s1) = Inr s2"
    and d: "lexExponent s2 = Inr s'"
    by (auto simp: lexNumber_def split: sum.splits)
  have f1: "follows s s1" by (rule follows_lexSign [OF cs a])
  then have f2: "follows s1 (digitLoop s1)"
    by (intro follows_digitLoop) (simp add: follows_def)
  then have f3: "follows (digitLoop s1) s2"
    by (intro follows_lexFraction [OF _ b]) (simp add: follows_def)
  then have f4: "follows s2 s'"
    by (intro follows_lexExponent [OF _ d]) (simp add: follows_def)
  from f1 f2 f3 f4 show ?thesis
    by (blast intro: follows_trans)
qed

lemma index_lexNumber:
  assumes "consistent s" and "isDigit (c s) \<or> c s = js ''-''" and "lexNumber s = Inr s'"
  shows "index s < index s'"
proof -
  from assms(3) obtain s1 s2 where a: "lexSign s = Inr s1" and b: "lexFraction (digitLoop s1) = Inr s2"
    and d: "lexExponent s2 = Inr s'"
    by (auto simp: lexNumber_def split: sum.splits)
  have f1: "follows s s1" by (rule follows_lexSign [OF assms(1) a])
  then have f2: "follows s1 (digitLoop s1)"
    by (intro follows_digitLoop) (simp add: follows_def)
  then have f3: "follows (digitLoop s1) s2"
    by (intro follows_lexFraction [OF _ b]) (simp add: follows_def)
  then have f4: "follows s2 s'"
    by (intro follows_lexExponent [OF _ d]) (simp add: follows_def)
  have "index s < index (digitLoop s1)"
  proof (cases "s1 = s")
    case True
    with a assms(2) have "isDigit (c s)"
      by (auto simp: lexSign_def Let_def split: if_splits)
    with True assms(1) show ?thesis
      by (simp add: index_digitLoop)
  next
    case False
    with a have "index s < index s1"
      by (auto simp: lexSign_def Let_def split: if_splits)
    with f2 show ?thesis
      by (simp add: follows_def)
  qed
  with f3 f4 show ?thesis
    by (simp add: follows_def)
qed

lemma follows_lexString: "consistent s \<Longrightarrow> c s \<noteq> [] \<Longrightarrow> lexString s = Inr s' \<Longrightarrow> follows s s'"
proof -
  assume cs: "consistent s" and ne: "c s \<noteq> []" and r: "lexString s = Inr s'"
  from r obtain s1 where a: "stringLoop (js_next s) = Inr s1" and q: "c s1 = [0x22]"
    and e: "s' = js_next s1"
    by (auto simp: lexString_def split: sum.splits if_splits)
  have f1: "follows s (js_next s)" by (rule follows_js_next [OF cs ne])
  have f2: "follows (js_next s) s1"
    by (rule follows_stringLoop [OF _ a]) simp
  then have "follows s1 (js_next s1)"
    using q by (intro follows_js_next) (simp_all add: follows_def)
  with f1 f2 e show ?thesis
    by (blast intro: follows_trans)
qed

lemma index_lexString: "lexString s = Inr s' \<Longrightarrow> index s < index s'"
proof -
  assume r: "lexString s = Inr s'"
  from r obtain s1 where a: "stringLoop (js_next s) = Inr s1" and e: "s' = js_next s1"
    by (auto simp: lexString_def split: sum.splits if_splits)
  have "follows (js_next s) s1"
    by (rule follows_stringLoop [OF _ a]) simp
  with e show ?thesis
    by (simp add: follows_def)
qed

text \<open>The tokenizer sets the token type once, at the start of a token.\<close>

lemma tokenType_js_next [simp]: "tokenType (js_next s) = tokenType s"
  by (simp add: js_next_def)

lemma tokenType_take_char [simp]: "tokenType (take_char s) = tokenType s"
  by (simp add: take_char_def)

lemma tokenType_digitLoop [simp]: "tokenType (digitLoop s) = tokenType s"
proof (induction s rule: digitLoop.induct)
  case (1 s)
  then show ?case by (subst digitLoop.simps) simp
qed

lemma tokenType_alphaLoop [simp]: "tokenType (alphaLoop s) = tokenType s"
proof (induction s rule: alphaLoop.induct)
  case (1 s)
  then show ?case by (subst alphaLoop.simps) simp
qed

lemma tokenType_readHex: "readHex u hex s = Inr (hex', s') \<Longrightarrow> tokenType s' = tokenType s"
  by (induction u arbitrary: hex s) (auto split: if_splits)

lemma tokenType_stringLoop: "stringLoop s = Inr s' \<Longrightarrow> tokenType s' = tokenType s"
proof (induction s arbitrary: s' rule: stringLoop.induct)
  case (1 s)
  show ?case
  proof (cases "c s \<noteq> [] \<and> c s \<noteq> [0x22]")
    case False
    with "1.prems" show ?thesis
      by (subst (asm) stringLoop.simps) auto
  next
    case go: True
    show ?thesis
    proof (cases "c s = [0x5C]")
      case False
      with go "1.prems" have r: "stringLoop (take_char s) = Inr s'"
        by (subst (asm) stringLoop.simps) simp
      from "1.IH"(3) [OF go False r] show ?thesis by simp
    next
      case bs: True
      show ?thesis
      proof (cases "ESCAPE_CHARACTERS (c (js_next s))")
        case (Some unescaped)
        with go bs "1.prems"
        have r: "stringLoop (js_next ((js_next s)\<lparr>token := token (js_next s) @ unescaped\<rparr>)) = Inr s'"
          by (subst (asm) stringLoop.simps) (simp add: Let_def)
        from "1.IH"(2) [OF go bs refl Some r] show ?thesis by simp
      next
        case None
        with go bs "1.prems" have u: "c (js_next s) = js ''u''"
          by (subst (asm) stringLoop.simps) (simp add: Let_def split: if_splits)
        with go bs None "1.prems" obtain hex s2 where
          h: "readHex 4 [] (js_next (js_next s)) = Inr (hex, s2)"
          and r: "stringLoop (s2\<lparr>token := token s2 @ fromCharCode (parseInt16 hex)\<rparr>) = Inr s'"
          by (subst (asm) stringLoop.simps) (auto simp: Let_def split: sum.splits)
        from "1.IH"(1) [OF go bs refl None u h refl r] tokenType_readHex [OF h] show ?thesis
          by simp
      qed
    qed
  qed
qed

lemma tokenType_lexSign: "lexSign s = Inr s' \<Longrightarrow> tokenType s' = tokenType s"
  by (auto simp: lexSign_def Let_def split: if_splits)

lemma tokenType_lexFraction: "lexFraction s = Inr s' \<Longrightarrow> tokenType s' = tokenType s"
  by (auto simp: lexFraction_def Let_def split: if_splits)

lemma tokenType_lexExponent: "lexExponent s = Inr s' \<Longrightarrow> tokenType s' = tokenType s"
  by (auto simp: lexExponent_def Let_def split: if_splits)

lemma tokenType_lexNumber: "lexNumber s = Inr s' \<Longrightarrow> tokenType s' = tokenType s"
proof -
  assume "lexNumber s = Inr s'"
  then obtain s1 s2 where "lexSign s = Inr s1" "lexFraction (digitLoop s1) = Inr s2" "lexExponent s2 = Inr s'"
    by (auto simp: lexNumber_def split: sum.splits)
  then show ?thesis
    using tokenType_lexSign [of s s1] tokenType_lexFraction [of "digitLoop s1" s2]
      tokenType_lexExponent [of s2 s']
    by simp
qed

lemma tokenType_lexString: "lexString s = Inr s' \<Longrightarrow> tokenType s' = tokenType s"
proof -
  assume "lexString s = Inr s'"
  then obtain s1 where "stringLoop (js_next s) = Inr s1" "s' = js_next s1"
    by (auto simp: lexString_def split: sum.splits if_splits)
  then show ?thesis
    using tokenType_stringLoop [of "js_next s" s1] by simp
qed

text \<open>
  What a call of \<open>getToken\<close> that returns guarantees: the cursor has moved on, and it is
  beyond the end of the text exactly behind the empty delimiter token that stands for
  the end.
\<close>

definition atToken :: "pstate \<Rightarrow> bool" where
  "atToken s =
     (consistent s \<and> (length (jsonText s) < index s \<longleftrightarrow> tokenType s = DELIMITER \<and> token s = []))"

definition lexed :: "pstate \<Rightarrow> pstate \<Rightarrow> bool" where
  "lexed s s' =
     (jsonText s' = jsonText s \<and> path s' = path s \<and> stack s' = stack s \<and> heap s' = heap s
      \<and> atToken s' \<and> index s < index s')"

lemma consistent_empty: "consistent s \<Longrightarrow> c s = [] \<Longrightarrow> length (jsonText s) \<le> index s"
  by (cases "index s < length (jsonText s)") (simp_all add: consistent_def charAt_def)

lemma getToken_lexed:
  assumes cs: "consistent s" and r: "getToken s = Inr s'"
  shows "lexed s s'"
proof -
  define w where "w = skipWhitespace (s\<lparr>tokenType := NULL, token := []\<rparr>)"
  have fw: "follows s w"
    using follows_skipWhitespace [of "s\<lparr>tokenType := NULL, token := []\<rparr>"] cs
    by (simp add: w_def)
  then have cw: "consistent w" by (simp add: follows_def)
  have inner: "lexed s s'"
    if f: "follows w s'" and i: "index w < index s'" and ne: "c w \<noteq> []"
      and ty: "tokenType s' \<noteq> DELIMITER" for s'
  proof -
    have "index w < length (jsonText w)"
      by (rule consistent_nonempty [OF cw ne])
    with f i fw ty show ?thesis
      by (simp add: lexed_def atToken_def follows_def)
  qed
  consider (delim) "DELIMITERS (c w)"
    | (num) "\<not> DELIMITERS (c w)" "isDigit (c w) \<or> c w = js ''-''"
    | (str) "\<not> DELIMITERS (c w)" "\<not> (isDigit (c w) \<or> c w = js ''-'')" "c w = [0x22]"
    | (sym) "\<not> DELIMITERS (c w)" "\<not> (isDigit (c w) \<or> c w = js ''-'')" "c w \<noteq> [0x22]" "isAlpha (c w)"
    | (unk) "\<not> DELIMITERS (c w)" "\<not> (isDigit (c w) \<or> c w = js ''-'')" "c w \<noteq> [0x22]" "\<not> isAlpha (c w)"
    by blast
  then show ?thesis
  proof cases
    case delim
    with r have e: "s' = js_next (w\<lparr>tokenType := DELIMITER, token := c w\<rparr>)"
      by (simp add: getToken_def Let_def w_def)
    show ?thesis
    proof (cases "c w = []")
      case True
      have "length (jsonText w) \<le> index w"
        by (rule consistent_empty [OF cw True])
      with e fw True show ?thesis
        by (simp add: lexed_def atToken_def follows_def) (simp add: js_next_def)
    next
      case False
      with cw have "index w < length (jsonText w)"
        by (rule consistent_nonempty)
      with e fw False show ?thesis
        by (simp add: lexed_def atToken_def follows_def) (simp add: js_next_def)
    qed
  next
    case num
    with r have e: "lexNumber (w\<lparr>tokenType := NUMBER\<rparr>) = Inr s'"
      by (simp add: getToken_def Let_def w_def)
    have "follows (w\<lparr>tokenType := NUMBER\<rparr>) s'"
      by (rule follows_lexNumber [OF _ e]) (simp add: cw)
    moreover have "index (w\<lparr>tokenType := NUMBER\<rparr>) < index s'"
      by (rule index_lexNumber [OF _ _ e]) (use num cw in simp_all)
    moreover have "c w \<noteq> []"
      using num(2) by auto
    moreover have "tokenType s' \<noteq> DELIMITER"
      using tokenType_lexNumber [OF e] by simp
    ultimately show ?thesis
      by (intro inner) simp_all
  next
    case str
    with r have e: "lexString (w\<lparr>tokenType := STRING\<rparr>) = Inr s'"
      by (simp add: getToken_def Let_def w_def)
    have "follows (w\<lparr>tokenType := STRING\<rparr>) s'"
      by (rule follows_lexString [OF _ _ e]) (use str cw in simp_all)
    moreover have "index (w\<lparr>tokenType := STRING\<rparr>) < index s'"
      by (rule index_lexString [OF e])
    moreover have "c w \<noteq> []"
      using str(3) by auto
    moreover have "tokenType s' \<noteq> DELIMITER"
      using tokenType_lexString [OF e] by simp
    ultimately show ?thesis
      by (intro inner) simp_all
  next
    case sym
    with r have e: "s' = alphaLoop (w\<lparr>tokenType := SYMBOL\<rparr>)"
      by (simp add: getToken_def Let_def w_def)
    have ne: "c w \<noteq> []" using sym(4) by auto
    have f: "follows (take_char (w\<lparr>tokenType := SYMBOL\<rparr>)) s'"
      unfolding e using sym(4)
      by (subst alphaLoop.simps) (simp add: follows_alphaLoop)
    have f0: "follows w (take_char (w\<lparr>tokenType := SYMBOL\<rparr>))"
      using follows_take_char [of "w\<lparr>tokenType := SYMBOL\<rparr>"] cw ne by simp
    have "follows w s'"
      by (rule follows_trans [OF f0 f])
    moreover have "index w < index s'"
      using f by (simp add: follows_def)
    moreover have "tokenType s' \<noteq> DELIMITER"
      by (simp add: e)
    ultimately show ?thesis
      using ne by (intro inner) simp_all
  next
    case unk
    with r show ?thesis
      by (simp add: getToken_def Let_def w_def)
  qed
qed

lemma initialize_consistent: "consistent (initialize text s0)"
  by (simp add: initialize_def consistent_def)

section \<open>The parser consumes\<close>

text \<open>
  \<open>consumed s s'\<close>: \<open>s'\<close> is a state after a token was read, further in the same text.
  Every piece of the parser that returns has consumed at least one token.
\<close>

definition consumed :: "pstate \<Rightarrow> pstate \<Rightarrow> bool" where
  "consumed s s' = (jsonText s' = jsonText s \<and> atToken s' \<and> index s < index s')"

lemma lexed_consumed: "lexed s s' \<Longrightarrow> consumed s s'"
  by (simp add: lexed_def consumed_def)

lemma consumed_trans: "consumed s s' \<Longrightarrow> consumed s' s'' \<Longrightarrow> consumed s s''"
  by (auto simp: consumed_def)

lemma consistent_frame [simp]:
  "consistent (s\<lparr>heap := h\<rparr>) = consistent s"
  "consistent (s\<lparr>stack := st\<rparr>) = consistent s"
  "consistent (s\<lparr>path := p\<rparr>) = consistent s"
  by (simp_all add: consistent_def)

lemma atToken_frame [simp]:
  "atToken (s\<lparr>heap := h\<rparr>) = atToken s"
  "atToken (s\<lparr>stack := st\<rparr>) = atToken s"
  "atToken (s\<lparr>path := p\<rparr>) = atToken s"
  by (simp_all add: atToken_def)

lemma consumed_frame [simp]:
  "consumed (s\<lparr>heap := h\<rparr>) s' = consumed s s'"
  "consumed (s\<lparr>stack := st\<rparr>) s' = consumed s s'"
  "consumed (s\<lparr>path := p\<rparr>) s' = consumed s s'"
  "consumed s (s'\<lparr>heap := h\<rparr>) = consumed s s'"
  "consumed s (s'\<lparr>stack := st\<rparr>) = consumed s s'"
  "consumed s (s'\<lparr>path := p\<rparr>) = consumed s s'"
  by (simp_all add: consumed_def)

lemma atToken_consistent: "atToken s \<Longrightarrow> consistent s"
  by (simp add: atToken_def)

lemma getToken_consumed: "consistent s \<Longrightarrow> getToken s = Inr s' \<Longrightarrow> consumed s s'"
  by (simp add: getToken_lexed lexed_consumed)

lemma returning_consumed:
  "consistent s \<Longrightarrow> returning v (getToken s) = Inr (v', s') \<Longrightarrow> consumed s s'"
  by (auto simp: returning_def getToken_consumed split: sum.splits)

lemma parseString_consumed:
  "consistent s \<Longrightarrow> parseString s = Inr (v, s') \<Longrightarrow> consumed s s'"
  by (auto simp: parseString_def parseNumber_def parseSymbol_def parseEnd_def Let_def
      dest: returning_consumed split: if_splits)

lemma setProperty_frame: "setProperty obj key v s = Inr s' \<Longrightarrow> s' = s\<lparr>heap := heap s'\<rparr>"
  by (auto simp: setProperty_def split: if_splits container.splits jsvalue.splits)

lemma push_frame: "push arr v s = s\<lparr>heap := heap (push arr v s)\<rparr>"
  by (auto simp: push_def split: container.splits)

lemma parseCircular_state: "parseCircular env obj s = Inr (v, s') \<Longrightarrow> s' = s"
  by (auto simp: parseCircular_def split: if_splits sum.splits)

lemma closeObject_consumed:
  "consistent s \<Longrightarrow> closeObject env obj i s = Inr (v, s') \<Longrightarrow> consumed s s'"
  by (auto simp: closeObject_def split: if_splits sum.splits
      dest!: parseCircular_state getToken_consumed)

lemma closeArray_consumed:
  "consistent s \<Longrightarrow> closeArray arr i s = Inr (v, s') \<Longrightarrow> consumed s s'"
  by (auto simp: closeArray_def split: if_splits sum.splits dest!: getToken_consumed)

lemma openObject_consumed:
  assumes "consistent s"
  shows "openObject s = Inl (Inr (v, s')) \<Longrightarrow> consumed s s'"
    and "openObject s = Inr (obj, i, s') \<Longrightarrow> consumed s s'"
proof -
  show "openObject s = Inl (Inr (v, s')) \<Longrightarrow> consumed s s'"
  proof -
    assume r: "openObject s = Inl (Inr (v, s'))"
    then obtain s1 where g: "getToken s = Inr s1"
      and q: "returning (JRef (length (heap s1))) (getToken (s1\<lparr>heap := heap s1 @ [JObject ProtoObject []]\<rparr>)) = Inr (v, s')"
      by (auto simp: openObject_def alloc_def Let_def split: sum.splits if_splits)
    from g have a: "consumed s s1" by (rule getToken_consumed [OF assms])
    then have "consistent (s1\<lparr>heap := heap s1 @ [JObject ProtoObject []]\<rparr>)"
      by (simp add: consumed_def atToken_def)
    from returning_consumed [OF this q] have "consumed s1 s'" by simp
    with a show ?thesis by (rule consumed_trans)
  qed
  show "openObject s = Inr (obj, i, s') \<Longrightarrow> consumed s s'"
    using assms
    by (auto simp: openObject_def alloc_def Let_def split: sum.splits if_splits
        dest!: getToken_consumed)
qed

lemma openArray_consumed:
  assumes "consistent s"
  shows "openArray s = Inl (Inr (v, s')) \<Longrightarrow> consumed s s'"
    and "openArray s = Inr (arr, i, s') \<Longrightarrow> consumed s s'"
proof -
  show "openArray s = Inl (Inr (v, s')) \<Longrightarrow> consumed s s'"
  proof -
    assume r: "openArray s = Inl (Inr (v, s'))"
    then obtain s1 where g: "getToken s = Inr s1"
      and q: "returning (JRef (length (heap s1))) (getToken (s1\<lparr>heap := heap s1 @ [JArray []]\<rparr>)) = Inr (v, s')"
      by (auto simp: openArray_def alloc_def Let_def split: sum.splits if_splits)
    from g have a: "consumed s s1" by (rule getToken_consumed [OF assms])
    then have "consistent (s1\<lparr>heap := heap s1 @ [JArray []]\<rparr>)"
      by (simp add: consumed_def atToken_def)
    from returning_consumed [OF this q] have "consumed s1 s'" by simp
    with a show ?thesis by (rule consumed_trans)
  qed
  show "openArray s = Inr (arr, i, s') \<Longrightarrow> consumed s s'"
    using assms
    by (auto simp: openArray_def alloc_def Let_def split: sum.splits if_splits
        dest!: getToken_consumed)
qed

lemma objectKey_consumed:
  assumes "consistent s" and "objectKey i s = Inr (key, s')"
  shows "consumed s s'"
proof -
  from assms(2) obtain s1 s2 where a: "getToken s = Inr s1" and b: "getToken s1 = Inr s2"
    and e: "s' = s2\<lparr>path := js_set (path s2) i (JString key)\<rparr>"
    by (auto simp: objectKey_def Let_def split: sum.splits if_splits)
  from a have "consumed s s1" by (rule getToken_consumed [OF assms(1)])
  moreover from this b have "consumed s1 s2"
    by (intro getToken_consumed) (simp_all add: consumed_def atToken_def)
  ultimately show ?thesis
    using e by (auto intro: consumed_trans)
qed

lemma objectKey_string: "objectKey i s = Inr (key, s') \<Longrightarrow> tokenType s = STRING"
  by (auto simp: objectKey_def split: if_splits)

lemma objectValue_consumed:
  assumes "consistent s"
  shows "objectValue env obj i key v s = Inl (Inr (v', s')) \<Longrightarrow> consumed s s'"
    and "objectValue env obj i key v s = Inr s' \<Longrightarrow> consumed s s'"
proof -
  show "objectValue env obj i key v s = Inl (Inr (v', s')) \<Longrightarrow> consumed s s'"
  proof -
    assume r: "objectValue env obj i key v s = Inl (Inr (v', s'))"
    then obtain s1 where p: "setProperty obj key v s = Inr s1"
      and q: "closeObject env obj i s1 = Inr (v', s')"
      by (auto simp: objectValue_def split: sum.splits if_splits)
    from setProperty_frame [OF p] obtain h where h: "s1 = s\<lparr>heap := h\<rparr>" by blast
    with assms q closeObject_consumed [of s1 env obj i v' s'] show ?thesis
      by simp
  qed
  show "objectValue env obj i key v s = Inr s' \<Longrightarrow> consumed s s'"
  proof -
    assume r: "objectValue env obj i key v s = Inr s'"
    then obtain s1 where p: "setProperty obj key v s = Inr s1" and q: "getToken s1 = Inr s'"
      by (auto simp: objectValue_def split: sum.splits if_splits)
    from setProperty_frame [OF p] obtain h where h: "s1 = s\<lparr>heap := h\<rparr>" by blast
    with assms q getToken_consumed [of s1 s'] show ?thesis
      by simp
  qed
qed

lemma arrayValue_consumed:
  assumes "consistent s"
  shows "arrayValue arr i v s = Inl (Inr (v', s')) \<Longrightarrow> consumed s s'"
    and "arrayValue arr i v s = Inr s' \<Longrightarrow> consumed s s'"
proof -
  from push_frame obtain h where h: "push arr v s = s\<lparr>heap := h\<rparr>" by blast
  show "arrayValue arr i v s = Inl (Inr (v', s')) \<Longrightarrow> consumed s s'"
    using assms closeArray_consumed [of "s\<lparr>heap := h\<rparr>" arr i v' s']
    by (auto simp: arrayValue_def Let_def h split: sum.splits if_splits)
  show "arrayValue arr i v s = Inr s' \<Longrightarrow> consumed s s'"
    using assms getToken_consumed [of "s\<lparr>heap := h\<rparr>" s']
    by (auto simp: arrayValue_def Let_def h split: sum.splits if_splits)
qed

section \<open>Termination\<close>

text \<open>
  \<open>left s\<close> bounds the tokens that are left from the state \<open>s\<close> on. With a bound on nested
  calls and iterations above it, the recursive descent returns or throws, and a call that
  returns has consumed a token.
\<close>

definition left :: "pstate \<Rightarrow> nat" where
  "left s = length (jsonText s) + 1 - index s"

definition returns :: "(error + jsvalue \<times> pstate) option \<Rightarrow> pstate \<Rightarrow> bool" where
  "returns r s = (\<exists>x. r = Some x \<and> (\<forall>v s'. x = Inr (v, s') \<longrightarrow> consumed s s'))"

lemma returns_error [simp]: "returns (Some (Inl e)) s"
  by (simp add: returns_def)

lemma returns_value [simp]: "returns (Some (Inr (v, s'))) s = consumed s s'"
  by (simp add: returns_def)

lemma returns_Some: "(\<And>v s'. x = Inr (v, s') \<Longrightarrow> consumed s s') \<Longrightarrow> returns (Some x) s"
  by (simp add: returns_def)

lemma returns_via: "returns r s1 \<Longrightarrow> consumed s s1 \<Longrightarrow> returns r s"
  unfolding returns_def by (blast intro: consumed_trans)

lemma left_frame [simp]:
  "left (s\<lparr>heap := h\<rparr>) = left s"
  "left (s\<lparr>stack := st\<rparr>) = left s"
  "left (s\<lparr>path := p\<rparr>) = left s"
  by (simp_all add: left_def)

lemma consumed_left_le: "consumed s s' \<Longrightarrow> left s' \<le> left s"
  by (auto simp: consumed_def left_def)

lemma consumed_left: "consumed s s' \<Longrightarrow> index s \<le> length (jsonText s) \<Longrightarrow> left s' < left s"
  by (auto simp: consumed_def left_def)

lemma atToken_index:
  "atToken s \<Longrightarrow> tokenType s \<noteq> DELIMITER \<or> token s \<noteq> [] \<Longrightarrow> index s \<le> length (jsonText s)"
  by (auto simp: atToken_def)

lemma atToken_end:
  "atToken s \<Longrightarrow> tokenType s = DELIMITER \<Longrightarrow> token s = [] \<Longrightarrow> length (jsonText s) < index s"
  by (simp add: atToken_def)

lemma consumed_atToken: "consumed s s' \<Longrightarrow> atToken s'"
  by (simp add: consumed_def)

lemma objectLoop_step:
  assumes po: "\<And>s. atToken s \<Longrightarrow> left s < n \<Longrightarrow> returns (parseObject env n s) s"
    and ol: "\<And>s. atToken s \<Longrightarrow> left s < n \<Longrightarrow> returns (objectLoop env n obj i s) s"
    and s: "atToken s" "left s < Suc n"
  shows "returns (objectLoop env (Suc n) obj i s) s"
proof (cases "objectKey i s")
  case (Inl e)
  then show ?thesis by simp
next
  case (Inr ks)
  obtain key s1 where ks: "ks = (key, s1)" by (cases ks)
  with Inr have k: "objectKey i s = Inr (key, s1)" by simp
  have c1: "consumed s s1"
    by (rule objectKey_consumed [OF atToken_consistent [OF s(1)] k])
  have "index s \<le> length (jsonText s)"
    using objectKey_string [OF k] by (intro atToken_index [OF s(1)]) simp
  with c1 have l1: "left s1 < n"
    using s(2) consumed_left [of s s1] by simp
  have r1: "returns (parseObject env n s1) s1"
    by (rule po [OF consumed_atToken [OF c1] l1])
  then obtain x where x: "parseObject env n s1 = Some x"
    by (auto simp: returns_def)
  show ?thesis
  proof (cases x)
    case (Inl e)
    with k x show ?thesis by simp
  next
    case (Inr vs)
    obtain v s2 where vs: "vs = (v, s2)" by (cases vs)
    with Inr x have p: "parseObject env n s1 = Some (Inr (v, s2))" by simp
    with r1 have c2: "consumed s1 s2" by simp
    then have cs2: "consistent s2" by (simp add: consumed_def atToken_def)
    show ?thesis
    proof (cases "objectValue env obj i key v s2")
      case (Inl r)
      have "returns (Some r) s2"
        using objectValue_consumed(1) [OF cs2] Inl by (intro returns_Some) simp
      then have "returns (Some r) s"
        using c1 c2 by (blast intro: returns_via consumed_trans)
      with k p Inl show ?thesis by simp
    next
      case (Inr s3)
      then have c3: "consumed s2 s3"
        by (rule objectValue_consumed(2) [OF cs2])
      then have "left s3 < n"
        using consumed_left_le [OF c3] consumed_left_le [OF c2] l1 by simp
      then have "returns (objectLoop env n obj i s3) s3"
        by (intro ol consumed_atToken [OF c3])
      then have "returns (objectLoop env n obj i s3) s"
        using c1 c2 c3 by (blast intro: returns_via consumed_trans)
      with k p Inr show ?thesis by simp
    qed
  qed
qed

lemma arrayLoop_step:
  assumes po: "\<And>s. atToken s \<Longrightarrow> left s < n \<Longrightarrow> returns (parseObject env n s) s"
    and al: "\<And>s. atToken s \<Longrightarrow> left s + 1 < n \<Longrightarrow> returns (arrayLoop env n arr i s) s"
    and s: "atToken s" "left s + 1 < Suc n"
  shows "returns (arrayLoop env (Suc n) arr i s) s"
proof -
  define s0 where "s0 = arrayIndex arr i s"
  have a0: "atToken s0" "left s0 < n" and c0: "\<And>t. consumed s0 t = consumed s t"
    using s by (simp_all add: s0_def arrayIndex_def)
  have r1: "returns (parseObject env n s0) s0"
    by (rule po [OF a0])
  then obtain x where x: "parseObject env n s0 = Some x"
    by (auto simp: returns_def)
  show ?thesis
  proof (cases x)
    case (Inl e)
    with x show ?thesis by (simp add: s0_def [symmetric])
  next
    case (Inr vs)
    obtain v s1 where vs: "vs = (v, s1)" by (cases vs)
    with Inr x have p: "parseObject env n s0 = Some (Inr (v, s1))" by simp
    with r1 have c1: "consumed s s1" by (simp add: c0)
    then have cs1: "consistent s1" by (simp add: consumed_def atToken_def)
    show ?thesis
    proof (cases "arrayValue arr i v s1")
      case (Inl r)
      have "returns (Some r) s1"
        using arrayValue_consumed(1) [OF cs1] Inl by (intro returns_Some) simp
      then have "returns (Some r) s"
        using c1 by (rule returns_via)
      with p Inl show ?thesis by (simp add: s0_def [symmetric])
    next
      case (Inr s2)
      then have c2: "consumed s1 s2"
        by (rule arrayValue_consumed(2) [OF cs1])
      have "token s1 \<noteq> []"
        using Inr by (auto simp: arrayValue_def Let_def push_def split: if_splits container.splits)
      then have "index s1 \<le> length (jsonText s1)"
        using c1 by (intro atToken_index) (simp_all add: consumed_def)
      then have "left s2 < left s1"
        by (rule consumed_left [OF c2])
      moreover have "left s1 < left s"
        using c1 \<open>index s1 \<le> length (jsonText s1)\<close> by (auto simp: consumed_def left_def)
      ultimately have "left s2 + 1 < n"
        using s(2) by simp
      then have "returns (arrayLoop env n arr i s2) s2"
        by (intro al consumed_atToken [OF c2])
      then have "returns (arrayLoop env n arr i s2) s"
        using c1 c2 by (blast intro: returns_via consumed_trans)
      with p Inr show ?thesis by (simp add: s0_def [symmetric])
    qed
  qed
qed

lemma parseArray_step:
  assumes al: "\<And>s arr i. atToken s \<Longrightarrow> left s + 1 < n \<Longrightarrow> returns (arrayLoop env n arr i s) s"
    and s: "atToken s" "left s < n"
  shows "returns (parseArray env n s) s"
proof (cases "tokenType s = DELIMITER \<and> token s = js ''[''")
  case False
  have "returns (Some (parseString s)) s"
    using parseString_consumed [OF atToken_consistent [OF s(1)]] by (intro returns_Some) simp
  with False show ?thesis by auto
next
  case True
  then have i: "index s \<le> length (jsonText s)"
    by (intro atToken_index [OF s(1)]) simp
  show ?thesis
  proof (cases "openArray s")
    case (Inl r)
    have "returns (Some r) s"
      using openArray_consumed(1) [OF atToken_consistent [OF s(1)]] Inl by (intro returns_Some) simp
    with True Inl show ?thesis by simp
  next
    case (Inr ais)
    obtain arr i s1 where "ais = (arr, i, s1)" by (cases ais)
    with Inr have o: "openArray s = Inr (arr, i, s1)" by simp
    then have c1: "consumed s s1"
      by (rule openArray_consumed(2) [OF atToken_consistent [OF s(1)]])
    then have "left s1 + 1 < n"
      using consumed_left [OF c1 i] s(2) by simp
    then have "returns (arrayLoop env n arr i s1) s1"
      by (intro al consumed_atToken [OF c1])
    then have "returns (arrayLoop env n arr i s1) s"
      using c1 by (rule returns_via)
    with True o show ?thesis by simp
  qed
qed

lemma parseObject_step:
  assumes ol: "\<And>s obj i. atToken s \<Longrightarrow> left s < Suc n \<Longrightarrow> returns (objectLoop env (Suc n) obj i s) s"
    and pa: "\<And>s. atToken s \<Longrightarrow> left s < Suc n \<Longrightarrow> returns (parseArray env (Suc n) s) s"
    and s: "atToken s" "left s < Suc n"
  shows "returns (parseObject env (Suc n) s) s"
proof (cases "tokenType s = DELIMITER \<and> token s = js ''{''")
  case False
  with pa [OF s] show ?thesis by auto
next
  case True
  show ?thesis
  proof (cases "openObject s")
    case (Inl r)
    have "returns (Some r) s"
      using openObject_consumed(1) [OF atToken_consistent [OF s(1)]] Inl by (intro returns_Some) simp
    with True Inl show ?thesis by simp
  next
    case (Inr ois)
    obtain obj i s1 where "ois = (obj, i, s1)" by (cases ois)
    with Inr have o: "openObject s = Inr (obj, i, s1)" by simp
    then have c1: "consumed s s1"
      by (rule openObject_consumed(2) [OF atToken_consistent [OF s(1)]])
    then have "left s1 < Suc n"
      using consumed_left_le [OF c1] s(2) by simp
    then have "returns (objectLoop env (Suc n) obj i s1) s1"
      by (intro ol consumed_atToken [OF c1])
    then have "returns (objectLoop env (Suc n) obj i s1) s"
      using c1 by (rule returns_via)
    with True o show ?thesis by simp
  qed
qed

lemma parser_returns:
  "(\<forall>s. atToken s \<longrightarrow> left s < n \<longrightarrow> returns (parseObject env n s) s)
   \<and> (\<forall>s obj i. atToken s \<longrightarrow> left s < n \<longrightarrow> returns (objectLoop env n obj i s) s)
   \<and> (\<forall>s arr i. atToken s \<longrightarrow> left s + 1 < n \<longrightarrow> returns (arrayLoop env n arr i s) s)"
proof (induction n)
  case 0
  then show ?case by simp
next
  case (Suc n)
  have ol: "returns (objectLoop env (Suc n) obj i s) s" if "atToken s" "left s < Suc n" for s obj i
    using Suc that by (intro objectLoop_step) auto
  have al: "returns (arrayLoop env (Suc n) arr i s) s" if "atToken s" "left s + 1 < Suc n" for s arr i
    using Suc that by (intro arrayLoop_step) auto
  have pa: "returns (parseArray env (Suc n) s) s" if "atToken s" "left s < Suc n" for s
    using al that by (intro parseArray_step) auto
  have po: "returns (parseObject env (Suc n) s) s" if "atToken s" "left s < Suc n" for s
    using ol pa that by (intro parseObject_step) auto
  from ol al po show ?case by blast
qed

lemma parseObject_returns:
  "atToken s \<Longrightarrow> length (jsonText s) + 1 - index s < n \<Longrightarrow> \<exists>x. parseObject env n s = Some x"
  using parser_returns [of n env] by (auto simp: returns_def left_def)

lemma parse_returns: "length text < n \<Longrightarrow> \<exists>x. parse env n text reviver s0 = Some x"
proof (cases "getToken (initialize text s0)")
  case (Inl e)
  then show ?thesis by (simp add: parse_def)
next
  case (Inr s1)
  assume n: "length text < n"
  from Inr have l: "lexed (initialize text s0) s1"
    by (rule getToken_lexed [OF initialize_consistent])
  then have "atToken s1" and "length (jsonText s1) + 1 - index s1 < n"
    using n by (auto simp: lexed_def initialize_def)
  then obtain x where "parseObject env n s1 = Some x"
    using parseObject_returns by blast
  with Inr show ?thesis
    by (auto simp: parse_def split: sum.splits option.splits)
qed

text \<open>A larger bound changes no result.\<close>

lemma objectLoop_more:
  assumes po: "\<And>s r. parseObject env n s = Some r \<Longrightarrow> parseObject env (n + k) s = Some r"
    and ol: "\<And>s r. objectLoop env n obj i s = Some r \<Longrightarrow> objectLoop env (n + k) obj i s = Some r"
    and r: "objectLoop env (Suc n) obj i s = Some r"
  shows "objectLoop env (Suc n + k) obj i s = Some r"
proof (cases "objectKey i s")
  case (Inl e)
  with r show ?thesis by simp
next
  case (Inr ks)
  obtain key s1 where "ks = (key, s1)" by (cases ks)
  with Inr have k: "objectKey i s = Inr (key, s1)" by simp
  with r obtain x where x: "parseObject env n s1 = Some x"
    by (cases "parseObject env n s1") auto
  note x' = po [OF x]
  show ?thesis
  proof (cases x)
    case (Inl e)
    with r k x x' show ?thesis by auto
  next
    case (Inr vs)
    obtain v s2 where "vs = (v, s2)" by (cases vs)
    with Inr x x' have p: "parseObject env n s1 = Some (Inr (v, s2))"
      and p': "parseObject env (n + k) s1 = Some (Inr (v, s2))" by simp_all
    show ?thesis
    proof (cases "objectValue env obj i key v s2")
      case (Inl q)
      with r k p p' show ?thesis by simp
    next
      case (Inr s3)
      with r k p have "objectLoop env n obj i s3 = Some r" by simp
      from ol [OF this] k p' Inr show ?thesis by simp
    qed
  qed
qed

lemma arrayLoop_more:
  assumes po: "\<And>s r. parseObject env n s = Some r \<Longrightarrow> parseObject env (n + k) s = Some r"
    and al: "\<And>s r. arrayLoop env n arr i s = Some r \<Longrightarrow> arrayLoop env (n + k) arr i s = Some r"
    and r: "arrayLoop env (Suc n) arr i s = Some r"
  shows "arrayLoop env (Suc n + k) arr i s = Some r"
proof -
  from r obtain x where x: "parseObject env n (arrayIndex arr i s) = Some x"
    by (cases "parseObject env n (arrayIndex arr i s)") auto
  note x' = po [OF x]
  show ?thesis
  proof (cases x)
    case (Inl e)
    with r x x' show ?thesis by auto
  next
    case (Inr vs)
    obtain v s1 where "vs = (v, s1)" by (cases vs)
    with Inr x x' have p: "parseObject env n (arrayIndex arr i s) = Some (Inr (v, s1))"
      and p': "parseObject env (n + k) (arrayIndex arr i s) = Some (Inr (v, s1))" by simp_all
    show ?thesis
    proof (cases "arrayValue arr i v s1")
      case (Inl q)
      with r p p' show ?thesis by simp
    next
      case (Inr s2)
      with r p have "arrayLoop env n arr i s2 = Some r" by simp
      from al [OF this] p' Inr show ?thesis by simp
    qed
  qed
qed

lemma parseArray_more:
  assumes al: "\<And>s arr i r. arrayLoop env n arr i s = Some r \<Longrightarrow> arrayLoop env (n + k) arr i s = Some r"
    and r: "parseArray env n s = Some r"
  shows "parseArray env (n + k) s = Some r"
  using r al by (auto split: if_splits sum.splits)

lemma parseObject_more:
  assumes ol: "\<And>s obj i r. objectLoop env (Suc n) obj i s = Some r \<Longrightarrow> objectLoop env (Suc n + k) obj i s = Some r"
    and pa: "\<And>s r. parseArray env (Suc n) s = Some r \<Longrightarrow> parseArray env (Suc n + k) s = Some r"
    and r: "parseObject env (Suc n) s = Some r"
  shows "parseObject env (Suc n + k) s = Some r"
proof (cases "tokenType s = DELIMITER \<and> token s = js ''{''")
  case False
  with r have "parseArray env (Suc n) s = Some r"
    by (auto simp del: parseArray.simps)
  from pa [OF this] False show ?thesis
    by (auto simp del: parseArray.simps)
next
  case True
  show ?thesis
  proof (cases "openObject s")
    case (Inl q)
    with True r show ?thesis by simp
  next
    case (Inr ois)
    obtain obj i s1 where "ois = (obj, i, s1)" by (cases ois)
    with Inr have o: "openObject s = Inr (obj, i, s1)" by simp
    with True r have "objectLoop env (Suc n) obj i s1 = Some r"
      by (simp del: objectLoop.simps)
    from ol [OF this] True o show ?thesis
      by (simp del: objectLoop.simps)
  qed
qed

lemma parser_more:
  "(\<forall>s r. parseObject env n s = Some r \<longrightarrow> parseObject env (n + k) s = Some r)
   \<and> (\<forall>s obj i r. objectLoop env n obj i s = Some r \<longrightarrow> objectLoop env (n + k) obj i s = Some r)
   \<and> (\<forall>s arr i r. arrayLoop env n arr i s = Some r \<longrightarrow> arrayLoop env (n + k) arr i s = Some r)"
proof (induction n)
  case 0
  then show ?case by simp
next
  case (Suc n)
  have ol: "objectLoop env (Suc n + k) obj i s = Some r"
    if "objectLoop env (Suc n) obj i s = Some r" for s obj i r
    using Suc that by (intro objectLoop_more) auto
  have al: "arrayLoop env (Suc n + k) arr i s = Some r"
    if "arrayLoop env (Suc n) arr i s = Some r" for s arr i r
    using Suc that by (intro arrayLoop_more) auto
  have pa: "parseArray env (Suc n + k) s = Some r" if "parseArray env (Suc n) s = Some r" for s r
    using al that by (intro parseArray_more) auto
  have po: "parseObject env (Suc n + k) s = Some r" if "parseObject env (Suc n) s = Some r" for s r
    using ol pa that by (intro parseObject_more) auto
  from ol al po show ?case by blast
qed

lemma parse_more:
  assumes "parse env n text reviver s0 = Some r" and "n \<le> m"
  shows "parse env m text reviver s0 = Some r"
proof (cases "getToken (initialize text s0)")
  case (Inl e)
  with assms show ?thesis by (simp add: parse_def)
next
  case (Inr s1)
  with assms(1) obtain x where x: "parseObject env n s1 = Some x"
    by (cases "parseObject env n s1") (auto simp: parse_def)
  from assms(2) obtain k where m: "m = n + k"
    by (auto simp: le_iff_add)
  from x have "parseObject env m s1 = Some x"
    using parser_more [of env n k] by (simp add: m)
  with x Inr assms(1) show ?thesis
    by (simp add: parse_def)
qed

section \<open>The tokenizer and the store\<close>

text \<open>
  The tokenizer reads and writes the text cursor and the token only: on states that
  differ in the store, the stack and the path it does the same. \<open>framed h st p s\<close> is
  the state \<open>s\<close> with these three replaced.
\<close>

definition framed :: "container list \<Rightarrow> jsvalue list \<Rightarrow> jsvalue list \<Rightarrow> pstate \<Rightarrow> pstate" where
  "framed h st p s = s\<lparr>heap := h, stack := st, path := p\<rparr>"

lemma framed_sel [simp]:
  "jsonText (framed h st p s) = jsonText s"
  "index (framed h st p s) = index s"
  "c (framed h st p s) = c s"
  "token (framed h st p s) = token s"
  "tokenType (framed h st p s) = tokenType s"
  "heap (framed h st p s) = h"
  "stack (framed h st p s) = st"
  "path (framed h st p s) = p"
  by (simp_all add: framed_def)

lemma framed_upd [simp]:
  "(framed h st p s)\<lparr>token := t\<rparr> = framed h st p (s\<lparr>token := t\<rparr>)"
  "(framed h st p s)\<lparr>tokenType := ty\<rparr> = framed h st p (s\<lparr>tokenType := ty\<rparr>)"
  by (simp_all add: framed_def)

lemma framed_self: "framed (heap s) (stack s) (path s) s = s"
  by (simp add: framed_def)

lemma js_next_framed [simp]: "js_next (framed h st p s) = framed h st p (js_next s)"
  by (simp add: js_next_def framed_def)

lemma take_char_framed [simp]: "take_char (framed h st p s) = framed h st p (take_char s)"
  by (simp add: take_char_def)

lemma createSyntaxError_framed [simp]:
  "createSyntaxError m q (framed h st p s) = createSyntaxError m q s"
  by (cases q) (simp_all add: createSyntaxError_def)

lemma skipWhitespace_framed [simp]: "skipWhitespace (framed h st p s) = framed h st p (skipWhitespace s)"
proof (induction s rule: skipWhitespace.induct)
  case (1 s)
  show ?case
  proof (cases "c s = js '' '' \<or> c s = [0x09] \<or> c s = [0x0A] \<or> c s = [0x0D]")
    case True
    have "skipWhitespace (framed h st p s) = skipWhitespace (framed h st p (js_next s))"
      using True by (subst skipWhitespace.simps) simp
    also have "\<dots> = framed h st p (skipWhitespace (js_next s))"
      using "1.IH" [OF True] .
    also have "skipWhitespace (js_next s) = skipWhitespace s"
      using True by (subst (2) skipWhitespace.simps) simp
    finally show ?thesis .
  next
    case False
    then have "skipWhitespace s = s"
      by (subst skipWhitespace.simps) simp
    moreover have "skipWhitespace (framed h st p s) = framed h st p s"
      using False by (subst skipWhitespace.simps) simp
    ultimately show ?thesis by simp
  qed
qed

lemma digitLoop_framed [simp]: "digitLoop (framed h st p s) = framed h st p (digitLoop s)"
proof (induction s rule: digitLoop.induct)
  case (1 s)
  show ?case
  proof (cases "isDigit (c s)")
    case True
    have "digitLoop (framed h st p s) = digitLoop (framed h st p (take_char s))"
      using True by (subst digitLoop.simps) simp
    also have "\<dots> = framed h st p (digitLoop (take_char s))"
      using "1.IH" [OF True] .
    also have "digitLoop (take_char s) = digitLoop s"
      using True by (subst (2) digitLoop.simps) simp
    finally show ?thesis .
  next
    case False
    then have "digitLoop s = s"
      by (subst digitLoop.simps) simp
    moreover have "digitLoop (framed h st p s) = framed h st p s"
      using False by (subst digitLoop.simps) simp
    ultimately show ?thesis by simp
  qed
qed

lemma alphaLoop_framed [simp]: "alphaLoop (framed h st p s) = framed h st p (alphaLoop s)"
proof (induction s rule: alphaLoop.induct)
  case (1 s)
  show ?case
  proof (cases "isAlpha (c s)")
    case True
    have "alphaLoop (framed h st p s) = alphaLoop (framed h st p (take_char s))"
      using True by (subst alphaLoop.simps) simp
    also have "\<dots> = framed h st p (alphaLoop (take_char s))"
      using "1.IH" [OF True] .
    also have "alphaLoop (take_char s) = alphaLoop s"
      using True by (subst (2) alphaLoop.simps) simp
    finally show ?thesis .
  next
    case False
    then have "alphaLoop s = s"
      by (subst alphaLoop.simps) simp
    moreover have "alphaLoop (framed h st p s) = framed h st p s"
      using False by (subst alphaLoop.simps) simp
    ultimately show ?thesis by simp
  qed
qed

lemma unknownLoop_framed [simp]: "unknownLoop (framed h st p s) = framed h st p (unknownLoop s)"
proof (induction s rule: unknownLoop.induct)
  case (1 s)
  show ?case
  proof (cases "c s \<noteq> []")
    case True
    have "unknownLoop (framed h st p s) = unknownLoop (framed h st p (take_char s))"
      using True by (subst unknownLoop.simps) simp
    also have "\<dots> = framed h st p (unknownLoop (take_char s))"
      using "1.IH" [OF True] .
    also have "unknownLoop (take_char s) = unknownLoop s"
      using True by (subst (2) unknownLoop.simps) simp
    finally show ?thesis .
  next
    case False
    then have "unknownLoop s = s"
      by (subst unknownLoop.simps) simp
    moreover have "unknownLoop (framed h st p s) = framed h st p s"
      using False by (subst unknownLoop.simps) simp
    ultimately show ?thesis by simp
  qed
qed

lemma lexSign_framed [simp]: "lexSign (framed h st p s) = map_sum id (framed h st p) (lexSign s)"
  by (simp add: lexSign_def Let_def)

lemma lexFraction_framed [simp]: "lexFraction (framed h st p s) = map_sum id (framed h st p) (lexFraction s)"
  by (simp add: lexFraction_def Let_def)

lemma lexExponent_framed [simp]: "lexExponent (framed h st p s) = map_sum id (framed h st p) (lexExponent s)"
  by (simp add: lexExponent_def Let_def)

lemma lexNumber_framed [simp]: "lexNumber (framed h st p s) = map_sum id (framed h st p) (lexNumber s)"
proof (cases "lexSign s")
  case (Inl e)
  then show ?thesis by (simp add: lexNumber_def)
next
  case (Inr s1)
  then show ?thesis
    by (cases "lexFraction (digitLoop s1)") (simp_all add: lexNumber_def)
qed

lemma readHex_framed [simp]:
  "readHex u hex (framed h st p s) = map_sum id (map_prod id (framed h st p)) (readHex u hex s)"
  by (induction u arbitrary: hex s) simp_all

lemma stringLoop_framed [simp]: "stringLoop (framed h st p s) = map_sum id (framed h st p) (stringLoop s)"
proof (induction s rule: stringLoop.induct)
  case (1 s)
  show ?case
  proof (cases "c s \<noteq> [] \<and> c s \<noteq> [0x22]")
    case False
    then have "stringLoop s = Inr s"
      by (subst stringLoop.simps) auto
    moreover have "stringLoop (framed h st p s) = Inr (framed h st p s)"
      using False by (subst stringLoop.simps) auto
    ultimately show ?thesis by simp
  next
    case go: True
    show ?thesis
    proof (cases "c s = [0x5C]")
      case False
      have "stringLoop s = stringLoop (take_char s)"
        using go False by (subst stringLoop.simps) simp
      moreover have "stringLoop (framed h st p s) = stringLoop (framed h st p (take_char s))"
        using go False by (subst stringLoop.simps) simp
      ultimately show ?thesis
        using "1.IH"(3) [OF go False] by simp
    next
      case bs: True
      show ?thesis
      proof (cases "ESCAPE_CHARACTERS (c (js_next s))")
        case (Some unescaped)
        define s2 where "s2 = js_next ((js_next s)\<lparr>token := token (js_next s) @ unescaped\<rparr>)"
        have a: "stringLoop s = stringLoop s2"
          using go bs Some by (subst stringLoop.simps) (simp add: Let_def s2_def)
        have b: "stringLoop (framed h st p s) = stringLoop (framed h st p s2)"
          using go bs Some by (subst stringLoop.simps) (simp add: Let_def s2_def)
        from "1.IH"(2) [OF go bs refl Some] a b show ?thesis
          by (simp add: s2_def)
      next
        case None
        show ?thesis
        proof (cases "c (js_next s) = js ''u''")
          case False
          have "stringLoop s = Inl (createSyntaxError (Invalid_escape_character (c (js_next s))) (Some (index (js_next s))) (js_next s))"
            using go bs None False by (subst stringLoop.simps) (simp add: Let_def)
          moreover have "stringLoop (framed h st p s) = Inl (createSyntaxError (Invalid_escape_character (c (js_next s))) (Some (index (js_next s))) (js_next s))"
            using go bs None False by (subst stringLoop.simps) (simp add: Let_def)
          ultimately show ?thesis by simp
        next
          case u: True
          show ?thesis
          proof (cases "readHex 4 [] (js_next (js_next s))")
            case (Inl e)
            have "stringLoop s = Inl e"
              using go bs None u Inl by (subst stringLoop.simps) (simp add: Let_def)
            moreover have "stringLoop (framed h st p s) = Inl e"
              using go bs None u Inl by (subst stringLoop.simps) (simp add: Let_def)
            ultimately show ?thesis by simp
          next
            case (Inr hs)
            obtain hex s2 where hs: "hs = (hex, s2)" by (cases hs)
            with Inr have r: "readHex 4 [] (js_next (js_next s)) = Inr (hex, s2)" by simp
            have a: "stringLoop s = stringLoop (s2\<lparr>token := token s2 @ fromCharCode (parseInt16 hex)\<rparr>)"
              using go bs None u r by (subst stringLoop.simps) (simp add: Let_def)
            have b: "stringLoop (framed h st p s)
                      = stringLoop (framed h st p (s2\<lparr>token := token s2 @ fromCharCode (parseInt16 hex)\<rparr>))"
              using go bs None u r by (subst stringLoop.simps) (simp add: Let_def)
            from "1.IH"(1) [OF go bs refl None u r refl] a b show ?thesis
              by simp
          qed
        qed
      qed
    qed
  qed
qed

lemma lexString_framed [simp]: "lexString (framed h st p s) = map_sum id (framed h st p) (lexString s)"
  by (cases "stringLoop (js_next s)") (simp_all add: lexString_def)

lemma getToken_framed: "getToken (framed h st p s) = map_sum id (framed h st p) (getToken s)"
  by (simp add: getToken_def Let_def)

lemma getToken_frame:
  assumes "getToken s = Inr s'"
  shows "heap s' = heap s" and "stack s' = stack s" and "path s' = path s"
proof -
  from getToken_framed [of "heap s" "stack s" "path s" s] assms
  have "s' = framed (heap s) (stack s) (path s) s'"
    by (simp add: framed_self)
  then have "heap s' = heap (framed (heap s) (stack s) (path s) s')"
    and "stack s' = stack (framed (heap s) (stack s) (path s) s')"
    and "path s' = path (framed (heap s) (stack s) (path s) s')"
    by simp_all
  then show "heap s' = heap s" and "stack s' = stack s" and "path s' = path s"
    by simp_all
qed

lemma getToken_heap: "getToken (s\<lparr>heap := h\<rparr>) = map_sum id (\<lambda>t. t\<lparr>heap := h\<rparr>) (getToken s)"
proof -
  have e: "s\<lparr>heap := h\<rparr> = framed h (stack s) (path s) s"
    by (simp add: framed_def)
  show ?thesis
  proof (cases "getToken s")
    case (Inl e')
    then show ?thesis by (simp add: e getToken_framed)
  next
    case (Inr t)
    from getToken_frame [OF Inr] have "framed h (stack s) (path s) t = t\<lparr>heap := h\<rparr>"
      by (simp add: framed_def)
    with Inr show ?thesis by (simp add: e getToken_framed)
  qed
qed

lemma getToken_stack: "getToken (s\<lparr>stack := st\<rparr>) = map_sum id (\<lambda>t. t\<lparr>stack := st\<rparr>) (getToken s)"
proof -
  have e: "s\<lparr>stack := st\<rparr> = framed (heap s) st (path s) s"
    by (simp add: framed_def)
  show ?thesis
  proof (cases "getToken s")
    case (Inl e')
    then show ?thesis by (simp add: e getToken_framed)
  next
    case (Inr t)
    from getToken_frame [OF Inr] have "framed (heap s) st (path s) t = t\<lparr>stack := st\<rparr>"
      by (simp add: framed_def)
    with Inr show ?thesis by (simp add: e getToken_framed)
  qed
qed

lemma getToken_path: "getToken (s\<lparr>path := p\<rparr>) = map_sum id (\<lambda>t. t\<lparr>path := p\<rparr>) (getToken s)"
proof -
  have e: "s\<lparr>path := p\<rparr> = framed (heap s) (stack s) p s"
    by (simp add: framed_def)
  show ?thesis
  proof (cases "getToken s")
    case (Inl e')
    then show ?thesis by (simp add: e getToken_framed)
  next
    case (Inr t)
    from getToken_frame [OF Inr] have "framed (heap s) (stack s) p t = t\<lparr>path := p\<rparr>"
      by (simp add: framed_def)
    with Inr show ?thesis by (simp add: e getToken_framed)
  qed
qed

section \<open>What the parser throws\<close>

text \<open>
  \<open>syntaxError e\<close>: the error \<open>e\<close> was made by \<^verbatim>\<open>createSyntaxError\<close>. The tokenizer throws
  no other.
\<close>

definition syntaxError :: "error \<Rightarrow> bool" where
  "syntaxError e = (case e of SyntaxError m p \<Rightarrow> True | _ \<Rightarrow> False)"

lemma syntaxError_simps [simp]:
  "syntaxError (SyntaxError m p)"
  "\<not> syntaxError (Error_Invalid_circular_reference v)"
  "\<not> syntaxError TypeError_Cyclic_proto"
  "\<not> syntaxError (Thrown x)"
  "syntaxError (createSyntaxError m q s)"
  by (simp_all add: syntaxError_def createSyntaxError_def)

lemma lexSign_throws: "lexSign s = Inl e \<Longrightarrow> syntaxError e"
  by (auto simp: lexSign_def Let_def split: if_splits)

lemma lexFraction_throws: "lexFraction s = Inl e \<Longrightarrow> syntaxError e"
  by (auto simp: lexFraction_def Let_def split: if_splits)

lemma lexExponent_throws: "lexExponent s = Inl e \<Longrightarrow> syntaxError e"
  by (auto simp: lexExponent_def Let_def split: if_splits)

lemma lexNumber_throws: "lexNumber s = Inl e \<Longrightarrow> syntaxError e"
  by (auto simp: lexNumber_def split: sum.splits
      dest: lexSign_throws lexFraction_throws lexExponent_throws)

lemma readHex_throws: "readHex u hex s = Inl e \<Longrightarrow> syntaxError e"
  by (induction u arbitrary: hex s) (auto split: if_splits)

lemma stringLoop_throws: "stringLoop s = Inl e \<Longrightarrow> syntaxError e"
proof (induction s rule: stringLoop.induct)
  case (1 s)
  show ?case
  proof (cases "c s \<noteq> [] \<and> c s \<noteq> [0x22]")
    case False
    with "1.prems" show ?thesis
      by (subst (asm) stringLoop.simps) auto
  next
    case go: True
    show ?thesis
    proof (cases "c s = [0x5C]")
      case False
      with go "1.prems" have "stringLoop (take_char s) = Inl e"
        by (subst (asm) stringLoop.simps) simp
      then show ?thesis
        by (rule "1.IH"(3) [OF go False])
    next
      case bs: True
      show ?thesis
      proof (cases "ESCAPE_CHARACTERS (c (js_next s))")
        case (Some unescaped)
        with go bs "1.prems"
        have "stringLoop (js_next ((js_next s)\<lparr>token := token (js_next s) @ unescaped\<rparr>)) = Inl e"
          by (subst (asm) stringLoop.simps) (simp add: Let_def)
        then show ?thesis
          by (rule "1.IH"(2) [OF go bs refl Some])
      next
        case None
        show ?thesis
        proof (cases "c (js_next s) = js ''u''")
          case False
          with go bs None "1.prems" show ?thesis
            by (subst (asm) stringLoop.simps) (auto simp: Let_def)
        next
          case u: True
          show ?thesis
          proof (cases "readHex 4 [] (js_next (js_next s))")
            case (Inl e')
            with go bs None u "1.prems" have "e = e'"
              by (subst (asm) stringLoop.simps) (simp add: Let_def)
            with Inl show ?thesis
              by (simp add: readHex_throws)
          next
            case (Inr hs)
            obtain hex s2 where "hs = (hex, s2)" by (cases hs)
            with Inr have r: "readHex 4 [] (js_next (js_next s)) = Inr (hex, s2)" by simp
            with go bs None u "1.prems"
            have "stringLoop (s2\<lparr>token := token s2 @ fromCharCode (parseInt16 hex)\<rparr>) = Inl e"
              by (subst (asm) stringLoop.simps) (simp add: Let_def)
            then show ?thesis
              by (rule "1.IH"(1) [OF go bs refl None u r refl])
          qed
        qed
      qed
    qed
  qed
qed

lemma lexString_throws: "lexString s = Inl e \<Longrightarrow> syntaxError e"
  by (auto simp: lexString_def split: sum.splits if_splits dest: stringLoop_throws)

lemma getToken_throws: "getToken s = Inl e \<Longrightarrow> syntaxError e"
  by (auto simp: getToken_def Let_def split: if_splits dest: lexNumber_throws lexString_throws)

text \<open>
  The setter of \<^verbatim>\<open>__proto__\<close> throws when the new prototype has the object on its chain.
  With circular references disabled the parser assigns to a key only values it has just
  built, so every prototype link of the store goes from an object to one allocated
  later, which is \<open>forward\<close>; then no chain comes back, and the setter does not throw.
  \<open>fresh k v\<close>: the value \<open>v\<close> is no reference to one of the first \<open>k\<close> containers.
\<close>

definition forward :: "container list \<Rightarrow> bool" where
  "forward h = (\<forall>a<length h. \<forall>b props. h ! a = JObject (ProtoRef b) props \<longrightarrow> a < b)"

definition fresh :: "nat \<Rightarrow> jsvalue \<Rightarrow> bool" where
  "fresh k v = (case v of JRef b \<Rightarrow> k \<le> b | _ \<Rightarrow> True)"

lemma fresh_simps [simp]:
  "fresh k (JRef b) = (k \<le> b)" "fresh k JUndefined" "fresh k JNull" "fresh k (JBool x)"
  "fresh k (JNumber y)" "fresh k (JString z)"
  by (simp_all add: fresh_def)

lemma fresh_mono: "fresh k v \<Longrightarrow> k' \<le> k \<Longrightarrow> fresh k' v"
  by (cases v) simp_all

lemma forward_empty [simp]: "forward []"
  by (simp add: forward_def)

lemma forward_no_chain: "forward h \<Longrightarrow> a < b \<Longrightarrow> \<not> onProtoChain h n b a"
proof (induction n arbitrary: b)
  case 0
  then show ?case by simp
next
  case (Suc n)
  show ?case
  proof (cases "b < length h")
    case False
    with Suc.prems show ?thesis by simp
  next
    case True
    show ?thesis
    proof (cases "h ! b")
      case (JArray xs)
      with Suc.prems show ?thesis by simp
    next
      case (JObject p props)
      show ?thesis
      proof (cases p)
        case (ProtoRef b')
        with JObject True Suc.prems(1) have "b < b'"
          by (simp add: forward_def)
        with Suc.prems(2) have "a < b'" by simp
        from Suc.IH [OF Suc.prems(1) this] JObject ProtoRef Suc.prems(2) show ?thesis
          by simp
      qed (use JObject Suc.prems in simp_all)
    qed
  qed
qed

lemma forward_append:
  "forward h \<Longrightarrow> (\<forall>b props. x = JObject (ProtoRef b) props \<longrightarrow> length h < b) \<Longrightarrow> forward (h @ [x])"
  by (auto simp: forward_def nth_append less_Suc_eq)

lemma forward_update:
  assumes "forward h" and "\<forall>b props. x = JObject (ProtoRef b) props \<longrightarrow> a < b"
  shows "forward (h[a := x])"
  unfolding forward_def
proof (intro allI impI)
  fix a' b props
  assume l: "a' < length (h[a := x])" and e: "h[a := x] ! a' = JObject (ProtoRef b) props"
  show "a' < b"
  proof (cases "a' = a")
    case True
    with l e assms(2) show ?thesis by simp
  next
    case False
    with l e assms(1) show ?thesis by (simp add: forward_def)
  qed
qed

lemma setProperty_throws:
  assumes "setProperty obj key v s = Inl e"
  shows "e = TypeError_Cyclic_proto \<and> (\<exists>b. v = JRef b \<and> onProtoChain (heap s) (length (heap s)) b obj)"
  using assms by (auto simp: setProperty_def split: if_splits container.splits jsvalue.splits)

lemma setProperty_forward:
  assumes "setProperty obj key v s = Inr s'" and "forward (heap s)" and "\<forall>b. v = JRef b \<longrightarrow> obj < b"
  shows "forward (heap s') \<and> length (heap s') = length (heap s)"
proof (cases "obj < length (heap s)")
  case False
  with assms show ?thesis by (simp add: setProperty_def)
next
  case True
  show ?thesis
  proof (cases "heap s ! obj")
    case (JArray xs)
    with True assms show ?thesis by (simp add: setProperty_def)
  next
    case (JObject p props)
    have keep: "forward ((heap s)[obj := JObject p props'])" for props'
      using assms(2) True JObject by (intro forward_update) (auto simp: forward_def)
    show ?thesis
    proof (cases "key = js ''__proto__'' \<and> inheritsProtoSetter (heap s) (length (heap s)) obj")
      case False
      with True JObject assms(1) have "heap s' = (heap s)[obj := JObject p (put_own key v props)]"
        by (auto simp: setProperty_def)
      with keep show ?thesis by simp
    next
      case setter: True
      show ?thesis
      proof (cases v)
        case (JRef b)
        with assms(3) have "obj < b" by simp
        then have "forward ((heap s)[obj := JObject (ProtoRef b) props])"
          using assms(2) by (intro forward_update) auto
        with True JObject setter JRef assms(1,2) show ?thesis
          by (auto simp: setProperty_def split: if_splits)
      next
        case JNull
        have "forward ((heap s)[obj := JObject ProtoNull props])"
          using assms(2) by (intro forward_update) auto
        with True JObject setter JNull assms(1) show ?thesis
          by (auto simp: setProperty_def)
      qed (use True JObject setter assms in \<open>auto simp: setProperty_def\<close>)
    qed
  qed
qed

lemma setProperty_length: "setProperty obj key v s = Inr s' \<Longrightarrow> length (heap s') = length (heap s)"
  by (auto simp: setProperty_def split: if_splits container.splits jsvalue.splits)

lemma push_forward: "forward (heap s) \<Longrightarrow> forward (heap (push arr v s))"
  by (auto simp: push_def forward_update split: container.splits)

lemma push_length [simp]: "length (heap (push arr v s)) = length (heap s)"
  by (auto simp: push_def split: container.splits)

text \<open>
  \<open>throwable env e\<close>: \<open>e\<close> is a syntax error or, with circular references enabled, an
  error of the marker resolution: the TypeError of the setter, the Error of
  \<open>parseCircular\<close>, or what the pointer parser throws. \<open>guarded\<close> is the invariant of the
  store. \<open>fair env k r\<close> says of a result of the parser, started with \<open>k\<close> containers in
  the store, that an error is throwable and that a value is fresh in a store that is
  still forward; \<open>kept env obj k r\<close> says the same of the loops, whose value is the
  container \<open>obj\<close> they fill.
\<close>

definition throwable :: "'r env \<Rightarrow> error \<Rightarrow> bool" where
  "throwable env e =
     (syntaxError e
      \<or> (circularRefs env
         \<and> (e = TypeError_Cyclic_proto \<or> (\<exists>v. e = Error_Invalid_circular_reference v)
            \<or> (\<exists>v. parsePointer env v = Inl e))))"

lemma throwable_syntax: "syntaxError e \<Longrightarrow> throwable env e"
  by (simp add: throwable_def)

definition guarded :: "'r env \<Rightarrow> pstate \<Rightarrow> bool" where
  "guarded env s = (circularRefs env \<or> forward (heap s))"

definition fair :: "'r env \<Rightarrow> nat \<Rightarrow> error + jsvalue \<times> pstate \<Rightarrow> bool" where
  "fair env k r =
     (case r of
        Inl e \<Rightarrow> throwable env e
      | Inr (v, s') \<Rightarrow> circularRefs env \<or> (forward (heap s') \<and> k \<le> length (heap s') \<and> fresh k v))"

definition kept :: "'r env \<Rightarrow> addr \<Rightarrow> nat \<Rightarrow> error + jsvalue \<times> pstate \<Rightarrow> bool" where
  "kept env obj k r =
     (case r of
        Inl e \<Rightarrow> throwable env e
      | Inr (v, s') \<Rightarrow> circularRefs env \<or> (forward (heap s') \<and> k \<le> length (heap s') \<and> v = JRef obj))"

lemma fair_simps [simp]:
  "fair env k (Inl e) = throwable env e"
  "fair env k (Inr (v, s')) = (circularRefs env \<or> (forward (heap s') \<and> k \<le> length (heap s') \<and> fresh k v))"
  by (simp_all add: fair_def)

lemma kept_simps [simp]:
  "kept env obj k (Inl e) = throwable env e"
  "kept env obj k (Inr (v, s')) = (circularRefs env \<or> (forward (heap s') \<and> k \<le> length (heap s') \<and> v = JRef obj))"
  by (simp_all add: kept_def)

lemma kept_fair: "kept env obj k r \<Longrightarrow> k' \<le> k \<Longrightarrow> k' \<le> obj \<Longrightarrow> fair env k' r"
  by (cases r) auto

lemma guarded_frame [simp]:
  "guarded env (s\<lparr>stack := st\<rparr>) = guarded env s"
  "guarded env (s\<lparr>path := p\<rparr>) = guarded env s"
  by (simp_all add: guarded_def)

lemma returning_fair:
  assumes "guarded env s" and "fresh k v" and "k \<le> length (heap s)"
  shows "fair env k (returning v (getToken s))"
proof (cases "getToken s")
  case (Inl e)
  then show ?thesis
    by (simp add: returning_def getToken_throws throwable_syntax)
next
  case (Inr s')
  with assms getToken_frame(1) [OF Inr] show ?thesis
    by (auto simp: returning_def guarded_def)
qed

lemma parseString_fair: "guarded env s \<Longrightarrow> fair env (length (heap s)) (parseString s)"
  by (auto simp: parseString_def parseNumber_def parseSymbol_def parseEnd_def Let_def
      throwable_syntax intro!: returning_fair)

lemma openObject_fair:
  assumes "guarded env s"
  shows "openObject s = Inl r \<Longrightarrow> fair env (length (heap s)) r"
    and "openObject s = Inr (obj, i, s1) \<Longrightarrow>
           guarded env s1 \<and> obj = length (heap s) \<and> length (heap s1) = Suc (length (heap s))"
proof -
  show "fair env (length (heap s)) r" if r: "openObject s = Inl r"
  proof (cases "getToken s")
    case (Inl e)
    with r show ?thesis
      by (auto simp: openObject_def getToken_throws throwable_syntax)
  next
    case (Inr s1)
    note h = getToken_frame(1) [OF Inr]
    from r Inr have e: "r = returning (JRef (length (heap s1))) (getToken (s1\<lparr>heap := heap s1 @ [JObject ProtoObject []]\<rparr>))"
      by (auto simp: openObject_def alloc_def Let_def split: if_splits)
    have "guarded env (s1\<lparr>heap := heap s1 @ [JObject ProtoObject []]\<rparr>)"
      using assms h by (auto simp: guarded_def forward_append)
    then show ?thesis
      unfolding e using h by (intro returning_fair) simp_all
  qed
  show "guarded env s1 \<and> obj = length (heap s) \<and> length (heap s1) = Suc (length (heap s))"
    if r: "openObject s = Inr (obj, i, s1)"
  proof -
    from r obtain t where g: "getToken s = Inr t"
      and e: "obj = length (heap t)" "heap s1 = heap t @ [JObject ProtoObject []]"
      by (auto simp: openObject_def alloc_def Let_def split: sum.splits if_splits)
    from getToken_frame(1) [OF g] e assms show ?thesis
      by (auto simp: guarded_def forward_append)
  qed
qed

lemma openArray_fair:
  assumes "guarded env s"
  shows "openArray s = Inl r \<Longrightarrow> fair env (length (heap s)) r"
    and "openArray s = Inr (arr, i, s1) \<Longrightarrow>
           guarded env s1 \<and> arr = length (heap s) \<and> length (heap s1) = Suc (length (heap s))"
proof -
  show "fair env (length (heap s)) r" if r: "openArray s = Inl r"
  proof (cases "getToken s")
    case (Inl e)
    with r show ?thesis
      by (auto simp: openArray_def getToken_throws throwable_syntax)
  next
    case (Inr s1)
    note h = getToken_frame(1) [OF Inr]
    from r Inr have e: "r = returning (JRef (length (heap s1))) (getToken (s1\<lparr>heap := heap s1 @ [JArray []]\<rparr>))"
      by (auto simp: openArray_def alloc_def Let_def split: if_splits)
    have "guarded env (s1\<lparr>heap := heap s1 @ [JArray []]\<rparr>)"
      using assms h by (auto simp: guarded_def forward_append)
    then show ?thesis
      unfolding e using h by (intro returning_fair) simp_all
  qed
  show "guarded env s1 \<and> arr = length (heap s) \<and> length (heap s1) = Suc (length (heap s))"
    if r: "openArray s = Inr (arr, i, s1)"
  proof -
    from r obtain t where g: "getToken s = Inr t"
      and e: "arr = length (heap t)" "heap s1 = heap t @ [JArray []]"
      by (auto simp: openArray_def alloc_def Let_def split: sum.splits if_splits)
    from getToken_frame(1) [OF g] e assms show ?thesis
      by (auto simp: guarded_def forward_append)
  qed
qed

lemma objectKey_fair:
  shows "objectKey i s = Inl e \<Longrightarrow> syntaxError e"
    and "objectKey i s = Inr (key, s1) \<Longrightarrow> heap s1 = heap s"
proof -
  show "syntaxError e" if "objectKey i s = Inl e"
    using that
    by (auto simp: objectKey_def Let_def split: if_splits sum.splits dest: getToken_throws)
  show "heap s1 = heap s" if "objectKey i s = Inr (key, s1)"
  proof -
    from that obtain t1 t2 where a: "getToken s = Inr t1" and b: "getToken t1 = Inr t2"
      and e: "s1 = t2\<lparr>path := js_set (path t2) i (JString key)\<rparr>"
      by (auto simp: objectKey_def Let_def split: sum.splits if_splits)
    from getToken_frame(1) [OF a] getToken_frame(1) [OF b] e show ?thesis
      by simp
  qed
qed

lemma parseCircular_throws: "parseCircular env obj s = Inl e \<Longrightarrow> throwable env e"
  by (auto simp: parseCircular_def throwable_def split: if_splits sum.splits)

lemma parseCircular_off: "\<not> circularRefs env \<Longrightarrow> parseCircular env obj s = Inr (JRef obj, s)"
  by (simp add: parseCircular_def)

lemma closeObject_fair:
  shows "closeObject env obj i s = Inl e \<Longrightarrow> throwable env e"
    and "closeObject env obj i s = Inr (v, s') \<Longrightarrow> heap s' = heap s \<and> (\<not> circularRefs env \<longrightarrow> v = JRef obj)"
proof -
  show "throwable env e" if "closeObject env obj i s = Inl e"
    using that
    by (auto simp: closeObject_def throwable_syntax split: if_splits sum.splits
        dest: getToken_throws parseCircular_throws)
  show "heap s' = heap s \<and> (\<not> circularRefs env \<longrightarrow> v = JRef obj)" if "closeObject env obj i s = Inr (v, s')"
    using that
    by (auto simp: closeObject_def parseCircular_def split: if_splits sum.splits
        dest: getToken_frame(1))
qed

lemma closeArray_fair:
  shows "closeArray arr i s = Inl e \<Longrightarrow> syntaxError e"
    and "closeArray arr i s = Inr (v, s') \<Longrightarrow> heap s' = heap s \<and> v = JRef arr"
  by (auto simp: closeArray_def split: if_splits sum.splits dest: getToken_throws getToken_frame(1))

lemma objectValue_fair:
  assumes g: "guarded env s" and f: "circularRefs env \<or> (\<forall>b. v = JRef b \<longrightarrow> obj < b)"
  shows "objectValue env obj i key v s = Inl r \<Longrightarrow> kept env obj (length (heap s)) r"
    and "objectValue env obj i key v s = Inr s' \<Longrightarrow> guarded env s' \<and> length (heap s') = length (heap s)"
proof -
  have nothrow: False if "\<not> circularRefs env" "setProperty obj key v s = Inl e" for e
  proof -
    from that(1) g f have fw: "forward (heap s)" and fr: "\<forall>b. v = JRef b \<longrightarrow> obj < b"
      by (simp_all add: guarded_def)
    from setProperty_throws [OF that(2)] obtain b where "v = JRef b"
      and "onProtoChain (heap s) (length (heap s)) b obj" by blast
    with fr forward_no_chain [OF fw, of obj b] show False by simp
  qed
  have set: "guarded env s1 \<and> length (heap s1) = length (heap s)"
    if "setProperty obj key v s = Inr s1" for s1
    using setProperty_forward [OF that] setProperty_length [OF that] g f
    by (auto simp: guarded_def)
  show "kept env obj (length (heap s)) r" if r: "objectValue env obj i key v s = Inl r"
  proof (cases "setProperty obj key v s")
    case (Inl e)
    with r have "r = Inl e" by (simp add: objectValue_def)
    moreover from setProperty_throws [OF Inl] have "e = TypeError_Cyclic_proto" by simp
    ultimately show ?thesis
      using nothrow [OF _ Inl] by (auto simp: throwable_def)
  next
    case (Inr s1)
    note s1 = set [OF Inr]
    show ?thesis
    proof (cases "tokenType s1 \<noteq> DELIMITER \<or> token s1 \<noteq> js '',''")
      case True
      with r Inr have e: "r = closeObject env obj i s1"
        by (simp add: objectValue_def)
      show ?thesis
      proof (cases "closeObject env obj i s1")
        case (Inl e')
        with e closeObject_fair(1) [OF Inl] show ?thesis by simp
      next
        case (Inr vs)
        obtain v' s2 where "vs = (v', s2)" by (cases vs)
        with Inr have q: "closeObject env obj i s1 = Inr (v', s2)" by simp
        from closeObject_fair(2) [OF q] s1 e q show ?thesis
          by (auto simp: guarded_def)
      qed
    next
      case False
      with r Inr obtain e' where "getToken s1 = Inl e'" and "r = Inl e'"
        by (auto simp: objectValue_def split: sum.splits)
      then show ?thesis
        by (simp add: getToken_throws throwable_syntax)
    qed
  qed
  show "guarded env s' \<and> length (heap s') = length (heap s)" if r: "objectValue env obj i key v s = Inr s'"
  proof -
    from r obtain s1 where p: "setProperty obj key v s = Inr s1" and q: "getToken s1 = Inr s'"
      by (auto simp: objectValue_def split: sum.splits if_splits)
    from set [OF p] getToken_frame(1) [OF q] show ?thesis
      by (simp add: guarded_def)
  qed
qed

lemma arrayValue_fair:
  assumes g: "guarded env s"
  shows "arrayValue arr i v s = Inl r \<Longrightarrow> kept env arr (length (heap s)) r"
    and "arrayValue arr i v s = Inr s' \<Longrightarrow> guarded env s' \<and> length (heap s') = length (heap s)"
proof -
  have p: "guarded env (push arr v s)"
    using g by (auto simp: guarded_def push_forward)
  show "kept env arr (length (heap s)) r" if r: "arrayValue arr i v s = Inl r"
  proof (cases "tokenType (push arr v s) \<noteq> DELIMITER \<or> token (push arr v s) \<noteq> js '',''")
    case True
    with r have e: "r = closeArray arr i (push arr v s)"
      by (simp add: arrayValue_def Let_def)
    show ?thesis
    proof (cases "closeArray arr i (push arr v s)")
      case (Inl e')
      with e closeArray_fair(1) [OF Inl] show ?thesis by (simp add: throwable_syntax)
    next
      case (Inr vs)
      obtain v' s2 where "vs = (v', s2)" by (cases vs)
      with Inr have q: "closeArray arr i (push arr v s) = Inr (v', s2)" by simp
      from closeArray_fair(2) [OF q] p e q show ?thesis
        by (auto simp: guarded_def)
    qed
  next
    case False
    with r obtain e' where "getToken (push arr v s) = Inl e'" and "r = Inl e'"
      by (auto simp: arrayValue_def Let_def split: sum.splits)
    then show ?thesis
      by (simp add: getToken_throws throwable_syntax)
  qed
  show "guarded env s' \<and> length (heap s') = length (heap s)" if r: "arrayValue arr i v s = Inr s'"
  proof -
    from r have q: "getToken (push arr v s) = Inr s'"
      by (auto simp: arrayValue_def Let_def split: sum.splits if_splits)
    from p getToken_frame(1) [OF q] show ?thesis
      by (simp add: guarded_def)
  qed
qed

lemma kept_mono: "kept env obj k r \<Longrightarrow> circularRefs env \<or> k' \<le> k \<Longrightarrow> kept env obj k' r"
  by (cases r) auto

lemma objectLoop_fair:
  assumes po: "\<And>s r. parseObject env n s = Some r \<Longrightarrow> guarded env s \<Longrightarrow> fair env (length (heap s)) r"
    and ol: "\<And>s r. objectLoop env n obj i s = Some r \<Longrightarrow> guarded env s
               \<Longrightarrow> circularRefs env \<or> obj < length (heap s) \<Longrightarrow> kept env obj (length (heap s)) r"
    and r: "objectLoop env (Suc n) obj i s = Some r" and g: "guarded env s"
    and o: "circularRefs env \<or> obj < length (heap s)"
  shows "kept env obj (length (heap s)) r"
proof (cases "objectKey i s")
  case (Inl e)
  with r objectKey_fair(1) [OF Inl] show ?thesis
    by (auto simp: throwable_syntax)
next
  case (Inr ks)
  obtain key s1 where "ks = (key, s1)" by (cases ks)
  with Inr have k: "objectKey i s = Inr (key, s1)" by simp
  note h1 = objectKey_fair(2) [OF k]
  with g have g1: "guarded env s1" by (simp add: guarded_def)
  from r k obtain x where x: "parseObject env n s1 = Some x"
    by (cases "parseObject env n s1") auto
  note f1 = po [OF x g1]
  show ?thesis
  proof (cases x)
    case (Inl e)
    with r k x f1 show ?thesis by auto
  next
    case (Inr vs)
    obtain v s2 where "vs = (v, s2)" by (cases vs)
    with Inr x have p: "parseObject env n s1 = Some (Inr (v, s2))" and xe: "x = Inr (v, s2)" by simp_all
    from f1 xe have f2: "circularRefs env \<or> (forward (heap s2) \<and> length (heap s) \<le> length (heap s2) \<and> fresh (length (heap s)) v)"
      by (simp add: h1)
    then have g2: "guarded env s2" by (auto simp: guarded_def)
    from f2 o have fr: "circularRefs env \<or> (\<forall>b. v = JRef b \<longrightarrow> obj < b)" by auto
    from f2 have le: "circularRefs env \<or> length (heap s) \<le> length (heap s2)" by auto
    show ?thesis
    proof (cases "objectValue env obj i key v s2")
      case (Inl q)
      with r k p have "r = q" by simp
      with objectValue_fair(1) [OF g2 fr Inl] le show ?thesis
        by (auto intro: kept_mono)
    next
      case (Inr s3)
      with r k p have l: "objectLoop env n obj i s3 = Some r" by simp
      from objectValue_fair(2) [OF g2 fr Inr] have g3: "guarded env s3"
        and h3: "length (heap s3) = length (heap s2)" by simp_all
      from o le h3 have o3: "circularRefs env \<or> obj < length (heap s3)" by auto
      from ol [OF l g3 o3] le h3 show ?thesis
        by (auto intro: kept_mono)
    qed
  qed
qed

lemma arrayLoop_fair:
  assumes po: "\<And>s r. parseObject env n s = Some r \<Longrightarrow> guarded env s \<Longrightarrow> fair env (length (heap s)) r"
    and al: "\<And>s r. arrayLoop env n arr i s = Some r \<Longrightarrow> guarded env s \<Longrightarrow> kept env arr (length (heap s)) r"
    and r: "arrayLoop env (Suc n) arr i s = Some r" and g: "guarded env s"
  shows "kept env arr (length (heap s)) r"
proof -
  define s0 where "s0 = arrayIndex arr i s"
  have h0: "heap s0 = heap s" and g0: "guarded env s0"
    using g by (simp_all add: s0_def arrayIndex_def)
  from r obtain x where x: "parseObject env n s0 = Some x"
    by (cases "parseObject env n s0") (auto simp: s0_def)
  note f1 = po [OF x g0]
  show ?thesis
  proof (cases x)
    case (Inl e)
    with r x f1 show ?thesis by (auto simp: s0_def [symmetric])
  next
    case (Inr vs)
    obtain v s1 where "vs = (v, s1)" by (cases vs)
    with Inr x have p: "parseObject env n s0 = Some (Inr (v, s1))" and xe: "x = Inr (v, s1)" by simp_all
    from f1 xe have f2: "circularRefs env \<or> (forward (heap s1) \<and> length (heap s) \<le> length (heap s1))"
      by (auto simp: h0)
    then have g1: "guarded env s1" by (auto simp: guarded_def)
    from f2 have le: "circularRefs env \<or> length (heap s) \<le> length (heap s1)" by auto
    show ?thesis
    proof (cases "arrayValue arr i v s1")
      case (Inl q)
      with r p have "r = q" by (simp add: s0_def [symmetric])
      with arrayValue_fair(1) [OF g1 Inl] le show ?thesis
        by (auto intro: kept_mono)
    next
      case (Inr s2)
      with r p have l: "arrayLoop env n arr i s2 = Some r" by (simp add: s0_def [symmetric])
      from arrayValue_fair(2) [OF g1 Inr] have g2: "guarded env s2"
        and h2: "length (heap s2) = length (heap s1)" by simp_all
      from al [OF l g2] le h2 show ?thesis
        by (auto intro: kept_mono)
    qed
  qed
qed

lemma parseArray_fair:
  assumes al: "\<And>s arr i r. arrayLoop env n arr i s = Some r \<Longrightarrow> guarded env s \<Longrightarrow> kept env arr (length (heap s)) r"
    and r: "parseArray env n s = Some r" and g: "guarded env s"
  shows "fair env (length (heap s)) r"
proof (cases "tokenType s = DELIMITER \<and> token s = js ''[''")
  case False
  with r have "r = parseString s" by auto
  with parseString_fair [OF g] show ?thesis by simp
next
  case True
  show ?thesis
  proof (cases "openArray s")
    case (Inl q)
    with True r have "r = q" by simp
    with openArray_fair(1) [OF g Inl] show ?thesis by simp
  next
    case (Inr ais)
    obtain arr i s1 where "ais = (arr, i, s1)" by (cases ais)
    with Inr have o: "openArray s = Inr (arr, i, s1)" by simp
    with True r have l: "arrayLoop env n arr i s1 = Some r" by simp
    from openArray_fair(2) [OF g o] have g1: "guarded env s1" and a: "arr = length (heap s)"
      and h1: "length (heap s1) = Suc (length (heap s))" by simp_all
    from al [OF l g1] a h1 show ?thesis
      by (intro kept_fair [of env arr "length (heap s1)"]) simp_all
  qed
qed

lemma parseObject_fair:
  assumes ol: "\<And>s obj i r. objectLoop env (Suc n) obj i s = Some r \<Longrightarrow> guarded env s
               \<Longrightarrow> circularRefs env \<or> obj < length (heap s) \<Longrightarrow> kept env obj (length (heap s)) r"
    and pa: "\<And>s r. parseArray env (Suc n) s = Some r \<Longrightarrow> guarded env s \<Longrightarrow> fair env (length (heap s)) r"
    and r: "parseObject env (Suc n) s = Some r" and g: "guarded env s"
  shows "fair env (length (heap s)) r"
proof (cases "tokenType s = DELIMITER \<and> token s = js ''{''")
  case False
  with r have "parseArray env (Suc n) s = Some r"
    by (auto simp del: parseArray.simps)
  from pa [OF this g] show ?thesis .
next
  case True
  show ?thesis
  proof (cases "openObject s")
    case (Inl q)
    with True r have "r = q" by simp
    with openObject_fair(1) [OF g Inl] show ?thesis by simp
  next
    case (Inr ois)
    obtain obj i s1 where "ois = (obj, i, s1)" by (cases ois)
    with Inr have o: "openObject s = Inr (obj, i, s1)" by simp
    with True r have l: "objectLoop env (Suc n) obj i s1 = Some r"
      by (simp del: objectLoop.simps)
    from openObject_fair(2) [OF g o] have g1: "guarded env s1" and a: "obj = length (heap s)"
      and h1: "length (heap s1) = Suc (length (heap s))" by simp_all
    from a h1 have "circularRefs env \<or> obj < length (heap s1)" by simp
    from ol [OF l g1 this] a h1 show ?thesis
      by (intro kept_fair [of env obj "length (heap s1)"]) simp_all
  qed
qed

lemma parser_fair:
  "(\<forall>s r. parseObject env n s = Some r \<longrightarrow> guarded env s \<longrightarrow> fair env (length (heap s)) r)
   \<and> (\<forall>s obj i r. objectLoop env n obj i s = Some r \<longrightarrow> guarded env s
         \<longrightarrow> circularRefs env \<or> obj < length (heap s) \<longrightarrow> kept env obj (length (heap s)) r)
   \<and> (\<forall>s arr i r. arrayLoop env n arr i s = Some r \<longrightarrow> guarded env s
         \<longrightarrow> kept env arr (length (heap s)) r)"
proof (induction n)
  case 0
  then show ?case by simp
next
  case (Suc n)
  have ol: "kept env obj (length (heap s)) r"
    if "objectLoop env (Suc n) obj i s = Some r" "guarded env s" "circularRefs env \<or> obj < length (heap s)"
    for s obj i r
    using Suc that by (intro objectLoop_fair [of env n obj i s r]) auto
  have al: "kept env arr (length (heap s)) r"
    if "arrayLoop env (Suc n) arr i s = Some r" "guarded env s" for s arr i r
    using Suc that by (intro arrayLoop_fair [of env n arr i s r]) auto
  have pa: "fair env (length (heap s)) r" if "parseArray env (Suc n) s = Some r" "guarded env s" for s r
    using al that by (intro parseArray_fair [of env "Suc n" s r]) auto
  have po: "fair env (length (heap s)) r" if "parseObject env (Suc n) s = Some r" "guarded env s" for s r
    using ol pa that by (intro parseObject_fair [of env n s r]) auto
  from ol al po show ?case by blast
qed

lemma parse_error_kinds:
  assumes "parse env n text reviver s0 = Some (Inl e)"
  shows "throwable env e \<or> (\<exists>f v h. reviver = Some f \<and> revive env v f h = Inl e)"
proof (cases "getToken (initialize text s0)")
  case (Inl e')
  with assms show ?thesis
    by (auto simp: parse_def getToken_throws throwable_syntax)
next
  case (Inr s1)
  from getToken_frame(1) [OF Inr] have g: "guarded env s1"
    by (simp add: guarded_def initialize_def)
  from assms Inr obtain x where x: "parseObject env n s1 = Some x"
    by (cases "parseObject env n s1") (auto simp: parse_def)
  from parser_fair [of env n] x g have f: "fair env (length (heap s1)) x" by blast
  show ?thesis
  proof (cases x)
    case (Inl e')
    with assms Inr x f show ?thesis by (simp add: parse_def)
  next
    case (Inr vs)
    obtain json s2 where "vs = (json, s2)" by (cases vs)
    with Inr x have p: "parseObject env n s1 = Some (Inr (json, s2))" by simp
    show ?thesis
    proof (cases "token s2 \<noteq> []")
      case True
      with assms \<open>getToken (initialize text s0) = Inr s1\<close> p show ?thesis
        by (auto simp: parse_def throwable_syntax)
    next
      case False
      with assms \<open>getToken (initialize text s0) = Inr s1\<close> p obtain f
        where "reviver = Some f" and "revive env json f (heap s2) = Inl e"
        by (auto simp: parse_def split: option.splits sum.splits)
      then show ?thesis by blast
    qed
  qed
qed

text \<open>
  C8 says that for every text, well-formed or not, a call of \<open>parse\<close> terminates, by
  returning a value or by throwing a syntax error. It terminates, but what it throws is
  not always a syntax error. With circular references enabled, the marker in
  \<^verbatim>\<open>{"__proto__":{"$ref":"#"}}\<close> resolves to the outer object, and assigning an object to its
  own \<^verbatim>\<open>__proto__\<close> throws a TypeError; \<open>parseCircular\<close> throws a plain \<^verbatim>\<open>Error\<close> for a path
  that does not match, as for \<^verbatim>\<open>{"a":{"$ref":"#/b"}}\<close>; and it passes on what the pointer
  parser throws.
\<close>

theorem parse_throws_other_errors:
  \<open>result (parse (exampleEnv True [(js ''#'', [])]) 3 (js ''{"__proto__":{"$ref":"#"}}'') None moduleLoaded)
     = Some (Inl TypeError_Cyclic_proto)
   \<and> result (parse (exampleEnv True [(js ''#/b'', [js ''b''])]) 3 (js ''{"a":{"$ref":"#/b"}}'') None moduleLoaded)
     = Some (Inl (Error_Invalid_circular_reference (JString (js ''#/b''))))
   \<and> result (parse (exampleEnv True []) 3 (js ''{"a":{"$ref":"#/b"}}'') None moduleLoaded)
     = Some (Inl (Thrown (js ''#/b'')))\<close>
  by code_simp

text \<open>
  C8, amended: for every text, well-formed or not, a call of \<open>parse\<close> terminates, by
  returning a value or by throwing. With a bound above the length of the text, and so
  with every larger one, \<open>parse\<close> has a result, and it is the same result for all of
  them. What it throws is a syntax error, unless circular references are enabled, when
  it can also be the Error of an invalid circular reference, the TypeError of a cyclic
  \<^verbatim>\<open>__proto__\<close> value or what the pointer parser throws, or a reviver is given, when it
  can be what \<^verbatim>\<open>revive\<close> throws. The loops of the tokenizer are total functions (their
  termination is proved where they are defined); the collaborators are assumed to
  return; the call stack of the JavaScript engine, which a deeply nested text can
  exhaust, is no part of the source and has no bound here.
\<close>

theorem parse_terminates:
  assumes "length text < n"
  shows "\<exists>r. (\<forall>m\<ge>n. parse env m text reviver s0 = Some r)
           \<and> (\<forall>e. r = Inl e \<longrightarrow>
                 syntaxError e
               \<or> (circularRefs env
                  \<and> (e = TypeError_Cyclic_proto \<or> (\<exists>v. e = Error_Invalid_circular_reference v)
                     \<or> (\<exists>v. parsePointer env v = Inl e)))
               \<or> (\<exists>f v h. reviver = Some f \<and> revive env v f h = Inl e))"
proof -
  from parse_returns [OF assms] obtain r where r: "parse env n text reviver s0 = Some r" ..
  then have "\<forall>m\<ge>n. parse env m text reviver s0 = Some r"
    by (blast intro: parse_more)
  moreover have "throwable env e \<or> (\<exists>f v h. reviver = Some f \<and> revive env v f h = Inl e)" if "r = Inl e" for e
    using parse_error_kinds [of env n _ reviver s0 e] r that by simp
  ultimately show ?thesis
    unfolding throwable_def by blast
qed

theorem parse_terminates_witness:
  \<open>length (js ''[{"a":[1]},'') < 12
   \<and> (\<exists>r. (\<forall>m\<ge>12. parse (exampleEnv True []) m (js ''[{"a":[1]},'') None moduleLoaded = Some r)
           \<and> (\<forall>e. r = Inl e \<longrightarrow>
                 syntaxError e
               \<or> (circularRefs (exampleEnv True [])
                  \<and> (e = TypeError_Cyclic_proto \<or> (\<exists>v. e = Error_Invalid_circular_reference v)
                     \<or> (\<exists>v. parsePointer (exampleEnv True []) v = Inl e)))
               \<or> (\<exists>f v h. None = Some f \<and> revive (exampleEnv True []) v f h = Inl e)))
   \<and> parse (exampleEnv True []) 12 (js ''[{"a":[1]},'') None moduleLoaded
       = Some (Inl (SyntaxError Unexpected_end_of_json_string 12))\<close>
proof -
  have a: \<open>length (js ''[{"a":[1]},'') < 12\<close>
    by simp
  have b: \<open>parse (exampleEnv True []) 12 (js ''[{"a":[1]},'') None moduleLoaded
       = Some (Inl (SyntaxError Unexpected_end_of_json_string 12))\<close>
    by code_simp
  from parse_terminates [OF a, of "exampleEnv True []" None moduleLoaded] a b show ?thesis
    by blast
qed


section \<open>String tokens\<close>

text \<open>\<open>reads s rest\<close>: the state \<open>s\<close> is consistent and \<open>rest\<close> is the text from its cursor on.\<close>

definition reads :: "pstate \<Rightarrow> jsstring \<Rightarrow> bool" where
  "reads s rest = (consistent s \<and> drop (index s) (jsonText s) = rest)"

lemma charAt_drop: "charAt xs i = take 1 (drop i xs)"
  by (cases "i < length xs") (simp_all add: charAt_def take_Suc_conv_app_nth hd_drop_conv_nth take_Suc)

lemma reads_c: "reads s rest \<Longrightarrow> c s = take 1 rest"
  by (auto simp: reads_def consistent_def charAt_drop)

lemma reads_Cons_c [simp]: "reads s (x # ys) \<Longrightarrow> c s = [x]"
  by (simp add: reads_c)

lemma reads_js_next: "reads s (x # ys) \<Longrightarrow> reads (js_next s) ys"
proof -
  assume "reads s (x # ys)"
  then have "drop (Suc (index s)) (jsonText s) = ys"
    by (simp add: reads_def drop_Suc drop_tl)
  then show ?thesis
    by (simp add: reads_def) (simp add: js_next_def)
qed

lemma reads_token [simp]: "reads (s\<lparr>token := t\<rparr>) rest = reads s rest"
  by (simp add: reads_def)

lemma reads_tokenType [simp]: "reads (s\<lparr>tokenType := t\<rparr>) rest = reads s rest"
  by (simp add: reads_def)

lemma reads_take_char: "reads s (x # ys) \<Longrightarrow> reads (take_char s) ys"
  using reads_js_next [of "s\<lparr>token := token s @ c s\<rparr>" x ys]
  by (simp add: take_char_def)






















lemma token_js_next [simp]: "token (js_next s) = token s"
  by (simp add: js_next_def)










section \<open>Trailing input\<close>

text \<open>
  \<open>longer rest a\<close> is the state \<open>a\<close> with \<open>rest\<close> appended to its text. A state is inside
  its text when it is consistent and its cursor is not beyond the end. A text that starts
  with no digit, no decimal point and no exponent mark stops the loops and the tests of
  the number branch of the tokenizer; one that starts with no letter and no underscore
  stops the loop of the symbol branch.
\<close>

definition longer :: "jsstring \<Rightarrow> pstate \<Rightarrow> pstate" where
  "longer rest a = a\<lparr>jsonText := jsonText a @ rest, c := charAt (jsonText a @ rest) (index a)\<rparr>"

definition inside :: "pstate \<Rightarrow> bool" where
  "inside a = (consistent a \<and> index a \<le> length (jsonText a))"

definition stopsNumber :: "jsstring \<Rightarrow> bool" where
  "stopsNumber rest =
     (\<not> isDigit (take 1 rest) \<and> take 1 rest \<noteq> js ''.'' \<and> take 1 rest \<noteq> js ''e''
      \<and> take 1 rest \<noteq> js ''E'')"

definition stopsSymbol :: "jsstring \<Rightarrow> bool" where
  "stopsSymbol rest = (\<not> isAlpha (take 1 rest))"

lemma longer_sel [simp]:
  "jsonText (longer rest a) = jsonText a @ rest"
  "index (longer rest a) = index a"
  "token (longer rest a) = token a"
  "tokenType (longer rest a) = tokenType a"
  "heap (longer rest a) = heap a"
  "stack (longer rest a) = stack a"
  "path (longer rest a) = path a"
  by (simp_all add: longer_def)

lemma longer_upd [simp]:
  "longer rest (a\<lparr>token := t\<rparr>) = (longer rest a)\<lparr>token := t\<rparr>"
  "longer rest (a\<lparr>tokenType := ty\<rparr>) = (longer rest a)\<lparr>tokenType := ty\<rparr>"
  "longer rest (a\<lparr>heap := h\<rparr>) = (longer rest a)\<lparr>heap := h\<rparr>"
  "longer rest (a\<lparr>stack := st\<rparr>) = (longer rest a)\<lparr>stack := st\<rparr>"
  "longer rest (a\<lparr>path := p\<rparr>) = (longer rest a)\<lparr>path := p\<rparr>"
  by (simp_all add: longer_def)

lemma inside_upd [simp]:
  "inside (a\<lparr>token := t\<rparr>) = inside a"
  "inside (a\<lparr>tokenType := ty\<rparr>) = inside a"
  "inside (a\<lparr>heap := h\<rparr>) = inside a"
  "inside (a\<lparr>stack := st\<rparr>) = inside a"
  "inside (a\<lparr>path := p\<rparr>) = inside a"
  by (simp_all add: inside_def)

lemma consistent_longer [simp]: "consistent (longer rest a)"
  by (simp add: consistent_def longer_def)

lemma longer_js_next: "js_next (longer rest a) = longer rest (js_next a)"
  by (simp add: js_next_def longer_def)

lemma c_longer: "inside a \<Longrightarrow> c a \<noteq> [] \<Longrightarrow> c (longer rest a) = c a"
  by (auto simp: inside_def consistent_def longer_def charAt_def nth_append split: if_splits)

lemma c_longer_end: "inside a \<Longrightarrow> c a = [] \<Longrightarrow> c (longer rest a) = take 1 rest"
  by (cases rest) (auto simp: inside_def consistent_def longer_def charAt_def nth_append split: if_splits)

lemma longer_take_char:
  assumes "inside a" and "c a \<noteq> []"
  shows "take_char (longer rest a) = longer rest (take_char a)"
proof -
  have "charAt (jsonText a @ rest) (index a) = c a"
    using c_longer [OF assms, of rest] by (simp add: longer_def)
  then show ?thesis
    by (simp add: take_char_def js_next_def longer_def)
qed

lemma inside_follows: "inside a \<Longrightarrow> follows a a' \<Longrightarrow> inside a'"
  by (simp add: inside_def follows_def)

lemma inside_js_next: "inside a \<Longrightarrow> c a \<noteq> [] \<Longrightarrow> inside (js_next a)"
  using consistent_nonempty [of a] by (simp add: inside_def) (simp add: js_next_def)

lemma inside_take_char: "inside a \<Longrightarrow> c a \<noteq> [] \<Longrightarrow> inside (take_char a)"
  using inside_js_next [of "a\<lparr>token := token a @ c a\<rparr>"] by (simp add: take_char_def)

lemma inside_consistent: "inside a \<Longrightarrow> consistent a"
  by (simp add: inside_def)

text \<open>
  A loop of the tokenizer that stops inside the text has seen nothing of what follows
  the text.
\<close>

lemma c_before:
  assumes "inside a" and "follows a a'" and "c a' \<noteq> []"
  shows "c a \<noteq> []"
proof -
  from assms(2) have "consistent a'" and t: "jsonText a' = jsonText a" and i: "index a \<le> index a'"
    by (simp_all add: follows_def)
  with assms(3) have "index a' < length (jsonText a)"
    using consistent_nonempty [of a'] by simp
  with i assms(1) show ?thesis
    by (simp add: inside_def consistent_def charAt_def)
qed

lemma isDigit_longer:
  "inside a \<Longrightarrow> stopsNumber rest \<or> c a \<noteq> [] \<Longrightarrow> isDigit (c (longer rest a)) = isDigit (c a)"
  by (cases "c a = []") (simp_all add: c_longer c_longer_end stopsNumber_def)

lemma isAlpha_longer:
  "inside a \<Longrightarrow> stopsSymbol rest \<or> c a \<noteq> [] \<Longrightarrow> isAlpha (c (longer rest a)) = isAlpha (c a)"
  by (cases "c a = []") (simp_all add: c_longer c_longer_end stopsSymbol_def)

lemma longer_digitLoop:
  "inside a \<Longrightarrow> stopsNumber rest \<or> c (digitLoop a) \<noteq> [] \<Longrightarrow> digitLoop (longer rest a) = longer rest (digitLoop a)"
proof (induction a rule: digitLoop.induct)
  case (1 a)
  show ?case
  proof (cases "isDigit (c a)")
    case True
    then have ne: "c a \<noteq> []" by auto
    have same: "digitLoop (take_char a) = digitLoop a"
      using True by (subst (2) digitLoop.simps) simp
    have "digitLoop (longer rest a) = digitLoop (take_char (longer rest a))"
      using True c_longer [OF "1.prems"(1) ne, of rest] by (subst digitLoop.simps) simp
    also have "\<dots> = longer rest (digitLoop (take_char a))"
      using "1.IH" [OF True inside_take_char [OF "1.prems"(1) ne]] "1.prems"(2) same
      by (simp add: longer_take_char [OF "1.prems"(1) ne])
    finally show ?thesis using same by simp
  next
    case False
    then have e: "digitLoop a = a" by (subst digitLoop.simps) simp
    moreover have "digitLoop (longer rest a) = longer rest a"
      using False "1.prems" e by (subst digitLoop.simps) (simp add: isDigit_longer)
    ultimately show ?thesis by simp
  qed
qed

lemma longer_alphaLoop:
  "inside a \<Longrightarrow> stopsSymbol rest \<or> c (alphaLoop a) \<noteq> [] \<Longrightarrow> alphaLoop (longer rest a) = longer rest (alphaLoop a)"
proof (induction a rule: alphaLoop.induct)
  case (1 a)
  show ?case
  proof (cases "isAlpha (c a)")
    case True
    then have ne: "c a \<noteq> []" by auto
    have same: "alphaLoop (take_char a) = alphaLoop a"
      using True by (subst (2) alphaLoop.simps) simp
    have "alphaLoop (longer rest a) = alphaLoop (take_char (longer rest a))"
      using True c_longer [OF "1.prems"(1) ne, of rest] by (subst alphaLoop.simps) simp
    also have "\<dots> = longer rest (alphaLoop (take_char a))"
      using "1.IH" [OF True inside_take_char [OF "1.prems"(1) ne]] "1.prems"(2) same
      by (simp add: longer_take_char [OF "1.prems"(1) ne])
    finally show ?thesis using same by simp
  next
    case False
    then have e: "alphaLoop a = a" by (subst alphaLoop.simps) simp
    moreover have "alphaLoop (longer rest a) = longer rest a"
      using False "1.prems" e by (subst alphaLoop.simps) (simp add: isAlpha_longer)
    ultimately show ?thesis by simp
  qed
qed

lemma inside_digitLoop: "inside a \<Longrightarrow> inside (digitLoop a)"
  using follows_digitLoop [of a] by (auto simp: inside_def follows_def)

lemma longer_lexSign:
  assumes "inside a" and "c a \<noteq> []" and "lexSign a = Inr a'"
  shows "lexSign (longer rest a) = Inr (longer rest a') \<and> inside a'"
proof -
  have f: "inside a'"
    using follows_lexSign [OF inside_consistent [OF assms(1)] assms(3)] assms(1)
    by (rule inside_follows [rotated])
  show ?thesis
  proof (cases "c a = js ''-''")
    case True
    with assms(3) have d: "isDigit (c (take_char a))" and e: "a' = take_char a"
      by (auto simp: lexSign_def Let_def split: if_splits)
    from d have "c (take_char a) \<noteq> []" by auto
    then have "c (longer rest (take_char a)) = c (take_char a)"
      using inside_take_char [OF assms(1,2)] by (simp add: c_longer)
    with True d e f assms(1,2) show ?thesis
      by (simp add: lexSign_def Let_def c_longer longer_take_char)
  next
    case False
    with assms f show ?thesis
      by (auto simp: lexSign_def Let_def c_longer longer_take_char split: if_splits)
  qed
qed

lemma longer_lexFraction:
  assumes "inside a" and "stopsNumber rest \<or> c a' \<noteq> []" and "lexFraction a = Inr a'"
  shows "lexFraction (longer rest a) = Inr (longer rest a') \<and> inside a'"
proof -
  have f: "inside a'"
    using follows_lexFraction [OF inside_consistent [OF assms(1)] assms(3)] assms(1)
    by (rule inside_follows [rotated])
  show ?thesis
  proof (cases "c a = js ''.''")
    case True
    then have ne: "c a \<noteq> []" by simp
    from True assms(3) have d: "isDigit (c (take_char a))" and e: "a' = digitLoop (take_char a)"
      by (auto simp: lexFraction_def Let_def split: if_splits)
    from d have ne1: "c (take_char a) \<noteq> []" by auto
    have i: "inside (take_char a)" by (rule inside_take_char [OF assms(1) ne])
    have "digitLoop (longer rest (take_char a)) = longer rest a'"
      unfolding e using assms(2) by (intro longer_digitLoop [OF i]) (simp add: e)
    with True d e f assms(1) ne ne1 i show ?thesis
      by (simp add: lexFraction_def Let_def c_longer longer_take_char)
  next
    case False
    with assms(3) have e: "a' = a" by (simp add: lexFraction_def)
    have "c (longer rest a) \<noteq> js ''.''"
      using False assms(1,2) e by (cases "c a = []") (simp_all add: c_longer c_longer_end stopsNumber_def)
    with e f show ?thesis by (simp add: lexFraction_def)
  qed
qed

lemma longer_lexExponent:
  assumes "inside a" and "stopsNumber rest \<or> c a' \<noteq> []" and "lexExponent a = Inr a'"
  shows "lexExponent (longer rest a) = Inr (longer rest a') \<and> inside a'"
proof -
  have f: "inside a'"
    using follows_lexExponent [OF inside_consistent [OF assms(1)] assms(3)] assms(1)
    by (rule inside_follows [rotated])
  show ?thesis
  proof (cases "c a = js ''e'' \<or> c a = js ''E''")
    case False
    with assms(3) have e: "a' = a" by (simp add: lexExponent_def)
    have "\<not> (c (longer rest a) = js ''e'' \<or> c (longer rest a) = js ''E'')"
      using False assms(1,2) e
      by (cases "c a = []") (simp_all add: c_longer c_longer_end stopsNumber_def)
    with e f show ?thesis by (simp add: lexExponent_def)
  next
    case True
    then have ne: "c a \<noteq> []" by auto
    define a1 where "a1 = take_char a"
    define a2 where "a2 = (if c a1 = js ''+'' \<or> c a1 = js ''-'' then take_char a1 else a1)"
    from True assms(3) have d: "isDigit (c a2)" and e: "a' = digitLoop a2"
      by (auto simp: lexExponent_def Let_def a1_def a2_def split: if_splits)
    have i1: "inside a1" unfolding a1_def by (rule inside_take_char [OF assms(1) ne])
    have ne1: "c a1 \<noteq> []"
      using d by (auto simp: a2_def split: if_splits)
    have i2: "inside a2"
      using i1 ne1 by (auto simp: a2_def inside_take_char)
    from d have ne2: "c a2 \<noteq> []" by auto
    have x1: "take_char (longer rest a) = longer rest a1"
      by (simp add: a1_def longer_take_char [OF assms(1) ne])
    have c1: "c (longer rest a1) = c a1"
      by (rule c_longer [OF i1 ne1])
    have d2: "isDigit (c (longer rest a2))"
      using d c_longer [OF i2 ne2, of rest] by simp
    have "lexExponent (longer rest a) = Inr (digitLoop (longer rest a2))"
    proof (cases "c a1 = js ''+'' \<or> c a1 = js ''-''")
      case sign: True
      then have "take_char (longer rest a1) = longer rest a2"
        using i1 ne1 by (simp add: a2_def longer_take_char)
      with sign True d2 c1 x1 assms(1) ne show ?thesis
        by (auto simp: lexExponent_def Let_def c_longer)
    next
      case nosign: False
      then have "a2 = a1" by (simp add: a2_def)
      with nosign True d2 c1 x1 assms(1) ne show ?thesis
        by (auto simp: lexExponent_def Let_def c_longer)
    qed
    moreover have "digitLoop (longer rest a2) = longer rest a'"
      unfolding e using assms(2) by (intro longer_digitLoop [OF i2]) (simp add: e)
    ultimately show ?thesis
      using f by simp
  qed
qed

lemma longer_lexNumber:
  assumes "inside a" and "stopsNumber rest \<or> c a' \<noteq> []" and "c a \<noteq> []" and "lexNumber a = Inr a'"
  shows "lexNumber (longer rest a) = Inr (longer rest a') \<and> inside a'"
proof -
  from assms(4) obtain a1 a2 where s: "lexSign a = Inr a1" and fr: "lexFraction (digitLoop a1) = Inr a2"
    and ex: "lexExponent a2 = Inr a'"
    by (auto simp: lexNumber_def split: sum.splits)
  from longer_lexSign [OF assms(1,3) s] have 1: "lexSign (longer rest a) = Inr (longer rest a1)" "inside a1"
    by simp_all
  have i2: "inside a2"
    using follows_lexFraction [OF _ fr] inside_digitLoop [OF 1(2)]
    by (auto simp: inside_consistent intro: inside_follows)
  have f3: "follows a2 a'"
    by (rule follows_lexExponent [OF inside_consistent [OF i2] ex])
  have f2: "follows (digitLoop a1) a2"
    by (rule follows_lexFraction [OF inside_consistent [OF inside_digitLoop [OF 1(2)]] fr])
  have s2: "stopsNumber rest \<or> c a2 \<noteq> []"
    using assms(2) c_before [OF i2 f3] by blast
  have s1: "stopsNumber rest \<or> c (digitLoop a1) \<noteq> []"
    using s2 c_before [OF inside_digitLoop [OF 1(2)] f2] by blast
  from longer_lexFraction [OF inside_digitLoop [OF 1(2)] s2 fr]
  have 2: "lexFraction (longer rest (digitLoop a1)) = Inr (longer rest a2)"
    by simp
  from longer_lexExponent [OF i2 assms(2) ex]
  have 3: "lexExponent (longer rest a2) = Inr (longer rest a')" "inside a'"
    by simp_all
  from 1 2 3 s1 show ?thesis
    by (simp add: lexNumber_def longer_digitLoop)
qed

lemma longer_readHex:
  assumes "inside a" and "readHex u hex a = Inr (hex', a')"
  shows "readHex u hex (longer rest a) = Inr (hex', longer rest a') \<and> inside a'"
  using assms
proof (induction u arbitrary: hex a)
  case 0
  then show ?case by simp
next
  case (Suc u)
  from Suc.prems(2) have h: "isHex (c a)" and r: "readHex u (hex @ c a) (js_next a) = Inr (hex', a')"
    by (simp_all split: if_splits)
  from h have ne: "c a \<noteq> []" by auto
  from Suc.IH [OF inside_js_next [OF Suc.prems(1) ne] r] h ne Suc.prems(1) show ?case
    by (simp add: c_longer longer_js_next)
qed

lemma longer_stringLoop:
  assumes "inside a" and "stringLoop a = Inr a'" and "c a' = [0x22]"
  shows "stringLoop (longer rest a) = Inr (longer rest a') \<and> inside a'"
  using assms
proof (induction a arbitrary: a' rule: stringLoop.induct)
  case (1 a)
  show ?case
  proof (cases "c a \<noteq> [] \<and> c a \<noteq> [0x22]")
    case False
    with "1.prems"(2) have e: "a' = a"
      by (subst (asm) stringLoop.simps) auto
    with "1.prems"(3) have q: "c a = [0x22]" by simp
    then have "c (longer rest a) = [0x22]"
      using "1.prems"(1) by (simp add: c_longer)
    then have "stringLoop (longer rest a) = Inr (longer rest a)"
      by (subst stringLoop.simps) simp
    with e "1.prems"(1) show ?thesis by simp
  next
    case go: True
    then have ne: "c a \<noteq> []" by simp
    have ce: "c (longer rest a) = c a"
      by (rule c_longer [OF "1.prems"(1) ne])
    have i1: "inside (js_next a)"
      by (rule inside_js_next [OF "1.prems"(1) ne])
    show ?thesis
    proof (cases "c a = [0x5C]")
      case False
      with go "1.prems"(2) have r: "stringLoop (take_char a) = Inr a'"
        by (subst (asm) stringLoop.simps) simp
      from "1.IH"(3) [OF go False inside_take_char [OF "1.prems"(1) ne] r "1.prems"(3)]
      have "stringLoop (longer rest (take_char a)) = Inr (longer rest a')" "inside a'"
        by simp_all
      with go False ce "1.prems"(1) ne show ?thesis
        by (subst stringLoop.simps) (simp add: longer_take_char)
    next
      case bs: True
      show ?thesis
      proof (cases "ESCAPE_CHARACTERS (c (js_next a))")
        case (Some unescaped)
        then have ne1: "c (js_next a) \<noteq> []"
          by (auto simp: ESCAPE_CHARACTERS_def split: if_splits)
        have ce1: "c (longer rest (js_next a)) = c (js_next a)"
          by (rule c_longer [OF i1 ne1])
        define a2 where "a2 = js_next ((js_next a)\<lparr>token := token (js_next a) @ unescaped\<rparr>)"
        from go bs Some "1.prems"(2) have r: "stringLoop a2 = Inr a'"
          by (subst (asm) stringLoop.simps) (simp add: Let_def a2_def)
        have i2: "inside a2"
          unfolding a2_def using i1 ne1 by (intro inside_js_next) simp_all
        from "1.IH"(2) [OF go bs refl Some, folded a2_def, OF i2 r "1.prems"(3)]
        have x: "stringLoop (longer rest a2) = Inr (longer rest a')" "inside a'"
          by simp_all
        have "js_next ((longer rest (js_next a))\<lparr>token := token (js_next a) @ unescaped\<rparr>) = longer rest a2"
          by (simp add: a2_def longer_js_next [symmetric])
        with go bs Some ce ce1 x show ?thesis
          by (subst stringLoop.simps) (simp add: Let_def longer_js_next)
      next
        case None
        with go bs "1.prems"(2) have u: "c (js_next a) = js ''u''"
          by (subst (asm) stringLoop.simps) (simp add: Let_def split: if_splits)
        then have ne1: "c (js_next a) \<noteq> []" by simp
        have ce1: "c (longer rest (js_next a)) = c (js_next a)"
          by (rule c_longer [OF i1 ne1])
        from go bs None u "1.prems"(2) obtain hex a2 where
          h: "readHex 4 [] (js_next (js_next a)) = Inr (hex, a2)"
          and r: "stringLoop (a2\<lparr>token := token a2 @ fromCharCode (parseInt16 hex)\<rparr>) = Inr a'"
          by (subst (asm) stringLoop.simps) (auto simp: Let_def split: sum.splits)
        from longer_readHex [OF inside_js_next [OF i1 ne1] h]
        have hx: "readHex 4 [] (longer rest (js_next (js_next a))) = Inr (hex, longer rest a2)" and i2: "inside a2"
          by simp_all
        from "1.IH"(1) [OF go bs refl None u h refl _ r "1.prems"(3)] i2
        have x: "stringLoop (longer rest (a2\<lparr>token := token a2 @ fromCharCode (parseInt16 hex)\<rparr>)) = Inr (longer rest a')"
          "inside a'"
          by simp_all
        with go bs None u ce ce1 hx show ?thesis
          by (subst stringLoop.simps) (simp add: Let_def longer_js_next)
      qed
    qed
  qed
qed

lemma longer_lexString:
  assumes "inside a" and "c a \<noteq> []" and "lexString a = Inr a'"
  shows "lexString (longer rest a) = Inr (longer rest a') \<and> inside a'"
proof -
  from assms(3) obtain a1 where s: "stringLoop (js_next a) = Inr a1" and q: "c a1 = [0x22]"
    and e: "a' = js_next a1"
    by (auto simp: lexString_def split: sum.splits if_splits)
  from longer_stringLoop [OF inside_js_next [OF assms(1,2)] s q]
  have x: "stringLoop (longer rest (js_next a)) = Inr (longer rest a1)" and i1: "inside a1"
    by simp_all
  have "c (longer rest a1) = [0x22]"
    using c_longer [OF i1] q by simp
  with x e i1 q show ?thesis
    by (simp add: lexString_def longer_js_next inside_js_next)
qed

lemma inside_skipWhitespace: "inside a \<Longrightarrow> inside (skipWhitespace a)"
  using follows_skipWhitespace [of a] by (auto simp: inside_def follows_def)

lemma longer_skipWhitespace:
  "inside a \<Longrightarrow> c (skipWhitespace a) \<noteq> [] \<Longrightarrow> skipWhitespace (longer rest a) = longer rest (skipWhitespace a)"
proof (induction a rule: skipWhitespace.induct)
  case (1 a)
  show ?case
  proof (cases "c a = js '' '' \<or> c a = [0x09] \<or> c a = [0x0A] \<or> c a = [0x0D]")
    case True
    then have ne: "c a \<noteq> []" by auto
    have s: "skipWhitespace a = skipWhitespace (js_next a)"
      using True by (subst skipWhitespace.simps) simp
    have "skipWhitespace (longer rest a) = skipWhitespace (js_next (longer rest a))"
      using True c_longer [OF "1.prems"(1) ne, of rest] by (subst skipWhitespace.simps) simp
    also have "\<dots> = longer rest (skipWhitespace (js_next a))"
      using "1.IH" [OF True inside_js_next [OF "1.prems"(1) ne]] "1.prems"(2) s
      by (simp add: longer_js_next)
    finally show ?thesis using s by simp
  next
    case False
    then have s: "skipWhitespace a = a"
      by (subst skipWhitespace.simps) simp
    with "1.prems"(2) have ne: "c a \<noteq> []" by simp
    have "skipWhitespace (longer rest a) = longer rest a"
      using False c_longer [OF "1.prems"(1) ne, of rest] by (subst skipWhitespace.simps) simp
    with s show ?thesis by simp
  qed
qed

text \<open>
  A number token ends with a digit and a symbol token with a letter or an underscore.
  \<open>digitEnd a\<close> and \<open>alphaEnd a\<close>: such a character is the one before the cursor.
\<close>

definition digitEnd :: "pstate \<Rightarrow> bool" where
  "digitEnd a = (0 < index a \<and> index a \<le> length (jsonText a) \<and> isDigit [jsonText a ! (index a - 1)])"

definition alphaEnd :: "pstate \<Rightarrow> bool" where
  "alphaEnd a = (0 < index a \<and> index a \<le> length (jsonText a) \<and> isAlpha [jsonText a ! (index a - 1)])"

lemma digitEnd_upd [simp]:
  "digitEnd (a\<lparr>token := t\<rparr>) = digitEnd a"
  "digitEnd (a\<lparr>tokenType := ty\<rparr>) = digitEnd a"
  by (simp_all add: digitEnd_def)

lemma alphaEnd_upd [simp]:
  "alphaEnd (a\<lparr>token := t\<rparr>) = alphaEnd a"
  "alphaEnd (a\<lparr>tokenType := ty\<rparr>) = alphaEnd a"
  by (simp_all add: alphaEnd_def)

lemma c_single:
  assumes "consistent a" and "c a \<noteq> []"
  shows "index a < length (jsonText a) \<and> c a = [jsonText a ! index a]"
proof -
  from assms have i: "index a < length (jsonText a)"
    by (rule consistent_nonempty)
  with assms(1) show ?thesis
    by (simp add: consistent_def charAt_def)
qed

lemma digitEnd_take_char:
  assumes "consistent a" and "isDigit (c a)"
  shows "digitEnd (take_char a)"
proof -
  from assms(2) have "c a \<noteq> []" by auto
  from c_single [OF assms(1) this] assms(2) show ?thesis
    by (simp add: digitEnd_def take_char_def js_next_def)
qed

lemma alphaEnd_take_char:
  assumes "consistent a" and "isAlpha (c a)"
  shows "alphaEnd (take_char a)"
proof -
  from assms(2) have "c a \<noteq> []" by auto
  from c_single [OF assms(1) this] assms(2) show ?thesis
    by (simp add: alphaEnd_def take_char_def js_next_def)
qed

lemma digitEnd_digitLoop: "consistent a \<Longrightarrow> digitEnd a \<or> isDigit (c a) \<Longrightarrow> digitEnd (digitLoop a)"
proof (induction a rule: digitLoop.induct)
  case (1 a)
  show ?case
  proof (cases "isDigit (c a)")
    case True
    have "digitEnd (digitLoop (take_char a))"
      using "1.IH" [OF True] digitEnd_take_char [OF "1.prems"(1)] True by simp
    with True show ?thesis
      by (subst digitLoop.simps) simp
  next
    case False
    with "1.prems" show ?thesis
      by (subst digitLoop.simps) simp
  qed
qed

lemma alphaEnd_alphaLoop: "consistent a \<Longrightarrow> alphaEnd a \<or> isAlpha (c a) \<Longrightarrow> alphaEnd (alphaLoop a)"
proof (induction a rule: alphaLoop.induct)
  case (1 a)
  show ?case
  proof (cases "isAlpha (c a)")
    case True
    have "alphaEnd (alphaLoop (take_char a))"
      using "1.IH" [OF True] alphaEnd_take_char [OF "1.prems"(1)] True by simp
    with True show ?thesis
      by (subst alphaLoop.simps) simp
  next
    case False
    with "1.prems" show ?thesis
      by (subst alphaLoop.simps) simp
  qed
qed

lemma digitEnd_lexSign:
  assumes "consistent a" and "isDigit (c a) \<or> c a = js ''-''" and "lexSign a = Inr a'"
  shows "digitEnd a' \<or> isDigit (c a')"
proof (cases "c a = js ''-''")
  case True
  with assms(3) show ?thesis
    by (auto simp: lexSign_def Let_def split: if_splits)
next
  case False
  with assms(2) have d: "isDigit (c a)" by simp
  show ?thesis
  proof (cases "c a = js ''0''")
    case True
    with False assms(3) have "a' = take_char a"
      by (simp add: lexSign_def)
    with digitEnd_take_char [OF assms(1) d] show ?thesis by simp
  next
    case z: False
    with False assms(3) have "a' = a"
      by (simp add: lexSign_def)
    with d show ?thesis by simp
  qed
qed

lemma digitEnd_lexFraction:
  assumes "consistent a" and "digitEnd a" and "lexFraction a = Inr a'"
  shows "digitEnd a'"
proof (cases "c a = js ''.''")
  case True
  with assms(3) have d: "isDigit (c (take_char a))" and e: "a' = digitLoop (take_char a)"
    by (auto simp: lexFraction_def Let_def split: if_splits)
  from d show ?thesis
    unfolding e by (intro digitEnd_digitLoop) simp_all
next
  case False
  with assms(2,3) show ?thesis by (simp add: lexFraction_def)
qed

lemma digitEnd_lexExponent:
  assumes "consistent a" and "digitEnd a" and "lexExponent a = Inr a'"
  shows "digitEnd a'"
proof (cases "c a = js ''e'' \<or> c a = js ''E''")
  case True
  define a1 where "a1 = take_char a"
  define a2 where "a2 = (if c a1 = js ''+'' \<or> c a1 = js ''-'' then take_char a1 else a1)"
  from True assms(3) have d: "isDigit (c a2)" and e: "a' = digitLoop a2"
    by (auto simp: lexExponent_def Let_def a1_def a2_def split: if_splits)
  have "consistent a2"
    by (simp add: a2_def a1_def)
  with d show ?thesis
    unfolding e by (intro digitEnd_digitLoop) simp_all
next
  case False
  with assms(2,3) show ?thesis by (simp add: lexExponent_def)
qed

lemma digitEnd_lexNumber:
  assumes "consistent a" and "isDigit (c a) \<or> c a = js ''-''" and "lexNumber a = Inr a'"
  shows "digitEnd a'"
proof -
  from assms(3) obtain a1 a2 where s: "lexSign a = Inr a1" and fr: "lexFraction (digitLoop a1) = Inr a2"
    and ex: "lexExponent a2 = Inr a'"
    by (auto simp: lexNumber_def split: sum.splits)
  have c1: "consistent a1"
    using follows_lexSign [OF assms(1) s] by (simp add: follows_def)
  then have c2: "consistent (digitLoop a1)"
    using follows_digitLoop [of a1] by (simp add: follows_def)
  then have c3: "consistent a2"
    using follows_lexFraction [OF _ fr] by (simp add: follows_def)
  have "digitEnd (digitLoop a1)"
    using digitEnd_lexSign [OF assms(1,2) s] by (intro digitEnd_digitLoop [OF c1])
  then have "digitEnd a2"
    by (rule digitEnd_lexFraction [OF c2 _ fr])
  then show ?thesis
    by (rule digitEnd_lexExponent [OF c3 _ ex])
qed

text \<open>
  The trailing text \<open>rest\<close> is apart from the text \<open>v\<close> when its first character cannot
  continue the last token of \<open>v\<close>: after a digit, which ends a number, it is no digit, no
  decimal point and no exponent mark; after a letter or an underscore, which end a
  symbol, it is no letter and no underscore.
\<close>

definition apart :: "jsstring \<Rightarrow> jsstring \<Rightarrow> bool" where
  "apart v rest =
     ((v \<noteq> [] \<and> isDigit [last v] \<longrightarrow> stopsNumber rest)
      \<and> (v \<noteq> [] \<and> isAlpha [last v] \<longrightarrow> stopsSymbol rest))"

definition within :: "jsstring \<Rightarrow> pstate \<Rightarrow> bool" where
  "within rest a = (inside a \<and> apart (jsonText a) rest)"

lemma within_upd [simp]:
  "within rest (a\<lparr>token := t\<rparr>) = within rest a"
  "within rest (a\<lparr>tokenType := ty\<rparr>) = within rest a"
  "within rest (a\<lparr>heap := h\<rparr>) = within rest a"
  "within rest (a\<lparr>stack := st\<rparr>) = within rest a"
  "within rest (a\<lparr>path := p\<rparr>) = within rest a"
  by (simp_all add: within_def)

lemma within_inside: "within rest a \<Longrightarrow> inside a"
  by (simp add: within_def)

lemma at_end_last:
  assumes "inside a" and "c a = []" and "0 < index a"
  shows "jsonText a \<noteq> [] \<and> jsonText a ! (index a - 1) = last (jsonText a)"
proof -
  from assms(1,2) have "length (jsonText a) \<le> index a"
    by (intro consistent_empty) (simp_all add: inside_def)
  with assms(1) have "index a = length (jsonText a)"
    by (simp add: inside_def)
  with assms(3) show ?thesis
    by (auto simp: last_conv_nth)
qed

lemma apart_digitEnd:
  assumes "apart (jsonText a) rest" and "inside a" and "digitEnd a"
  shows "stopsNumber rest \<or> c a \<noteq> []"
proof (cases "c a = []")
  case True
  from assms(3) have "0 < index a" and d: "isDigit [jsonText a ! (index a - 1)]"
    by (simp_all add: digitEnd_def)
  from at_end_last [OF assms(2) True this(1)] d assms(1) show ?thesis
    by (simp add: apart_def)
qed simp

lemma apart_alphaEnd:
  assumes "apart (jsonText a) rest" and "inside a" and "alphaEnd a"
  shows "stopsSymbol rest \<or> c a \<noteq> []"
proof (cases "c a = []")
  case True
  from assms(3) have "0 < index a" and d: "isAlpha [jsonText a ! (index a - 1)]"
    by (simp_all add: alphaEnd_def)
  from at_end_last [OF assms(2) True this(1)] d assms(1) show ?thesis
    by (simp add: apart_def)
qed simp

text \<open>A call of \<open>getToken\<close> that reads a token of the text reads it in the longer text too.\<close>

lemma longer_getToken:
  assumes wi: "within rest a" and g: "getToken a = Inr a'"
    and t: "tokenType a' \<noteq> DELIMITER \<or> token a' \<noteq> []"
  shows "getToken (longer rest a) = Inr (longer rest a') \<and> within rest a'"
proof -
  from wi have i: "inside a" and ap: "apart (jsonText a) rest"
    by (simp_all add: within_def)
  define w where "w = skipWhitespace (a\<lparr>tokenType := NULL, token := []\<rparr>)"
  have iw: "inside w"
    unfolding w_def using i by (intro inside_skipWhitespace) simp
  have tw: "jsonText w = jsonText a"
    using follows_skipWhitespace [of "a\<lparr>tokenType := NULL, token := []\<rparr>"] i
    by (simp add: w_def inside_def follows_def)
  have ne: "c w \<noteq> []"
  proof
    assume "c w = []"
    with g have "a' = js_next (w\<lparr>tokenType := DELIMITER, token := []\<rparr>)"
      by (simp add: getToken_def Let_def w_def [symmetric] DELIMITERS_def)
    with t show False by (simp add: js_next_def)
  qed
  have ew: "skipWhitespace ((longer rest a)\<lparr>tokenType := NULL, token := []\<rparr>) = longer rest w"
    using longer_skipWhitespace [of "a\<lparr>tokenType := NULL, token := []\<rparr>" rest] i ne
    by (simp add: w_def)
  have cw: "c (longer rest w) = c w"
    by (rule c_longer [OF iw ne])
  have ta: "jsonText a' = jsonText a"
    using getToken_lexed [OF inside_consistent [OF i] g] by (simp add: lexed_def)
  have fin: "within rest a'" if "inside a'"
    using that ap ta by (simp add: within_def)
  consider (delim) "DELIMITERS (c w)"
    | (num) "\<not> DELIMITERS (c w)" "isDigit (c w) \<or> c w = js ''-''"
    | (str) "\<not> DELIMITERS (c w)" "\<not> (isDigit (c w) \<or> c w = js ''-'')" "c w = [0x22]"
    | (sym) "\<not> DELIMITERS (c w)" "\<not> (isDigit (c w) \<or> c w = js ''-'')" "c w \<noteq> [0x22]" "isAlpha (c w)"
    | (unk) "\<not> DELIMITERS (c w)" "\<not> (isDigit (c w) \<or> c w = js ''-'')" "c w \<noteq> [0x22]" "\<not> isAlpha (c w)"
    by blast
  then show ?thesis
  proof cases
    case delim
    with g have e: "a' = js_next (w\<lparr>tokenType := DELIMITER, token := c w\<rparr>)"
      by (simp add: getToken_def Let_def w_def)
    have "inside a'"
      unfolding e using iw ne by (intro inside_js_next) simp_all
    with delim e ew cw fin show ?thesis
      by (simp add: getToken_def Let_def longer_js_next [symmetric])
  next
    case num
    with g have e: "lexNumber (w\<lparr>tokenType := NUMBER\<rparr>) = Inr a'"
      by (simp add: getToken_def Let_def w_def)
    have i': "inside a'"
      using follows_lexNumber [OF _ e] iw by (auto simp: inside_consistent intro: inside_follows)
    have "digitEnd a'"
      by (rule digitEnd_lexNumber [OF _ _ e]) (use iw num in \<open>simp_all add: inside_consistent\<close>)
    with ap ta i' have st: "stopsNumber rest \<or> c a' \<noteq> []"
      by (intro apart_digitEnd) simp_all
    from longer_lexNumber [OF _ st _ e] iw ne
    have "lexNumber (longer rest (w\<lparr>tokenType := NUMBER\<rparr>)) = Inr (longer rest a')"
      by simp
    with num ew cw i' fin show ?thesis
      by (simp add: getToken_def Let_def)
  next
    case str
    with g have e: "lexString (w\<lparr>tokenType := STRING\<rparr>) = Inr a'"
      by (simp add: getToken_def Let_def w_def)
    from longer_lexString [OF _ _ e] iw ne
    have "lexString (longer rest (w\<lparr>tokenType := STRING\<rparr>)) = Inr (longer rest a')" "inside a'"
      by simp_all
    with str ew cw fin show ?thesis
      by (simp add: getToken_def Let_def)
  next
    case sym
    with g have e: "a' = alphaLoop (w\<lparr>tokenType := SYMBOL\<rparr>)"
      by (simp add: getToken_def Let_def w_def)
    have i': "inside a'"
      unfolding e using follows_alphaLoop [of "w\<lparr>tokenType := SYMBOL\<rparr>"] iw
      by (auto simp: inside_def follows_def)
    have "alphaEnd a'"
      unfolding e using iw sym(4) by (intro alphaEnd_alphaLoop) (simp_all add: inside_consistent)
    with ap ta i' have st: "stopsSymbol rest \<or> c a' \<noteq> []"
      by (intro apart_alphaEnd) simp_all
    have "alphaLoop (longer rest (w\<lparr>tokenType := SYMBOL\<rparr>)) = longer rest a'"
      unfolding e using iw st by (intro longer_alphaLoop) (simp_all add: e)
    then show ?thesis
      using sym ew cw i' fin by (simp add: getToken_def Let_def)
  next
    case unk
    with g show ?thesis
      by (simp add: getToken_def Let_def w_def)
  qed
qed

text \<open>
  The trailing content, as text: whitespace, then the first character of a token.
  \<open>startsToken r\<close>: the text \<open>r\<close> starts with a delimiter, with a letter or an underscore,
  which start a symbol, or with a well-formed number. \<open>wellFormedNumber\<close> is the number
  grammar as far as the tokenizer insists on it: a digit after the optional minus sign,
  a digit after a decimal point, and a digit after an exponent mark and its optional
  sign. \<open>tokenStart a\<close> is the offset that \<^verbatim>\<open>createSyntaxError\<close> reports when it is given
  none.
\<close>

definition isWhitespace :: "jschar \<Rightarrow> bool" where
  "isWhitespace x = (x = 0x20 \<or> x = 0x09 \<or> x = 0x0A \<or> x = 0x0D)"

definition delimiter :: "jschar \<Rightarrow> bool" where
  "delimiter d = (d = 0x7B \<or> d = 0x7D \<or> d = 0x5B \<or> d = 0x5D \<or> d = 0x3A \<or> d = 0x2C)"

definition digitFirst :: "jsstring \<Rightarrow> bool" where
  "digitFirst r = (case r of [] \<Rightarrow> False | x # xs \<Rightarrow> isDecimalDigit x)"

definition wellFormedNumber :: "jsstring \<Rightarrow> bool" where
  "wellFormedNumber r =
     (let r1 = (if take 1 r = js ''-'' then drop 1 r else r);
          r2 = dropWhile isDecimalDigit r1;
          r3 = (if take 1 r2 = js ''.'' then dropWhile isDecimalDigit (drop 1 r2) else r2);
          r4 = drop 1 r3;
          r5 = (if take 1 r4 = js ''+'' \<or> take 1 r4 = js ''-'' then drop 1 r4 else r4)
      in digitFirst r1
         \<and> (take 1 r2 = js ''.'' \<longrightarrow> digitFirst (drop 1 r2))
         \<and> (take 1 r3 = js ''e'' \<or> take 1 r3 = js ''E'' \<longrightarrow> digitFirst r5))"

definition startsToken :: "jsstring \<Rightarrow> bool" where
  "startsToken r =
     (case r of [] \<Rightarrow> False | x # xs \<Rightarrow> delimiter x \<or> isAlpha [x] \<or> wellFormedNumber r)"

lemma apart_whitespace: "isWhitespace w \<Longrightarrow> apart v (w # rest)"
  by (auto simp: apart_def stopsNumber_def stopsSymbol_def isWhitespace_def)

lemma apart_delimiter: "delimiter d \<Longrightarrow> apart v (d # rest)"
  by (auto simp: apart_def stopsNumber_def stopsSymbol_def delimiter_def)

lemma apart_closed: "\<not> isDigit [last v] \<Longrightarrow> \<not> isAlpha [last v] \<Longrightarrow> apart v rest"
  unfolding apart_def by blast

definition tokenStart :: "pstate \<Rightarrow> int" where
  "tokenStart a = int (index a) - int (length (token a))"

lemma tokenStart_tokenType [simp]: "tokenStart (a\<lparr>tokenType := ty\<rparr>) = tokenStart a"
  by (simp add: tokenStart_def)

lemma tokenStart_take_char:
  assumes "consistent a" and "c a \<noteq> []"
  shows "tokenStart (take_char a) = tokenStart a"
proof -
  from assms have "index a < length (jsonText a)"
    by (rule consistent_nonempty)
  with assms(1) have "length (c a) = 1"
    by (simp add: consistent_def charAt_def)
  then show ?thesis
    by (simp add: tokenStart_def take_char_def js_next_def)
qed

lemma tokenStart_digitLoop: "consistent a \<Longrightarrow> tokenStart (digitLoop a) = tokenStart a"
proof (induction a rule: digitLoop.induct)
  case (1 a)
  show ?case
  proof (cases "isDigit (c a)")
    case True
    then have ne: "c a \<noteq> []" by auto
    from "1.IH" [OF True] tokenStart_take_char [OF "1.prems" ne] True show ?thesis
      by (subst digitLoop.simps) simp
  next
    case False
    then show ?thesis by (subst digitLoop.simps) simp
  qed
qed

lemma tokenStart_alphaLoop: "consistent a \<Longrightarrow> tokenStart (alphaLoop a) = tokenStart a"
proof (induction a rule: alphaLoop.induct)
  case (1 a)
  show ?case
  proof (cases "isAlpha (c a)")
    case True
    then have ne: "c a \<noteq> []" by auto
    from "1.IH" [OF True] tokenStart_take_char [OF "1.prems" ne] True show ?thesis
      by (subst alphaLoop.simps) simp
  next
    case False
    then show ?thesis by (subst alphaLoop.simps) simp
  qed
qed

lemma tokenStart_lexSign: "consistent a \<Longrightarrow> lexSign a = Inr a' \<Longrightarrow> tokenStart a' = tokenStart a"
  by (auto simp: lexSign_def Let_def tokenStart_take_char split: if_splits)

lemma tokenStart_lexFraction:
  "consistent a \<Longrightarrow> lexFraction a = Inr a' \<Longrightarrow> tokenStart a' = tokenStart a"
  by (auto simp: lexFraction_def Let_def tokenStart_take_char tokenStart_digitLoop split: if_splits)

lemma tokenStart_lexExponent:
  assumes "consistent a" and "lexExponent a = Inr a'"
  shows "tokenStart a' = tokenStart a"
proof (cases "c a = js ''e'' \<or> c a = js ''E''")
  case True
  then have ne: "c a \<noteq> []" by auto
  define a1 where "a1 = take_char a"
  define a2 where "a2 = (if c a1 = js ''+'' \<or> c a1 = js ''-'' then take_char a1 else a1)"
  from True assms(2) have e: "a' = digitLoop a2"
    by (auto simp: lexExponent_def Let_def a1_def a2_def split: if_splits)
  have 1: "tokenStart a1 = tokenStart a"
    unfolding a1_def by (rule tokenStart_take_char [OF assms(1) ne])
  have 2: "tokenStart a2 = tokenStart a1"
    by (auto simp: a2_def a1_def tokenStart_take_char)
  have "consistent a2"
    by (simp add: a2_def a1_def)
  with 1 2 show ?thesis
    by (simp add: e tokenStart_digitLoop)
next
  case False
  with assms(2) show ?thesis by (simp add: lexExponent_def)
qed

lemma tokenStart_lexNumber:
  assumes "consistent a" and "lexNumber a = Inr a'"
  shows "tokenStart a' = tokenStart a"
proof -
  from assms(2) obtain a1 a2 where s: "lexSign a = Inr a1" and fr: "lexFraction (digitLoop a1) = Inr a2"
    and ex: "lexExponent a2 = Inr a'"
    by (auto simp: lexNumber_def split: sum.splits)
  have c1: "consistent a1"
    using follows_lexSign [OF assms(1) s] by (simp add: follows_def)
  then have c2: "consistent (digitLoop a1)"
    using follows_digitLoop [of a1] by (simp add: follows_def)
  then have c3: "consistent a2"
    using follows_lexFraction [OF _ fr] by (simp add: follows_def)
  from tokenStart_lexSign [OF assms(1) s] tokenStart_digitLoop [OF c1]
    tokenStart_lexFraction [OF c2 fr] tokenStart_lexExponent [OF c3 ex]
  show ?thesis by simp
qed

text \<open>The tokenizer accepts a number of this shape.\<close>

lemma isDecimalDigit_iff: "isDecimalDigit x = (0x30 \<le> x \<and> (x < 0x39 \<or> x = 0x39))"
  by (auto simp: isDecimalDigit_def)

lemma reads_digit: "reads b r \<Longrightarrow> isDigit (c b) = digitFirst r"
  by (cases r) (simp_all add: reads_c digitFirst_def isDecimalDigit_iff)

lemma reads_step: "reads b r \<Longrightarrow> c b \<noteq> [] \<Longrightarrow> reads (take_char b) (drop 1 r)"
  by (cases r) (simp_all add: reads_c reads_take_char)

lemma reads_digitLoop: "reads b r \<Longrightarrow> reads (digitLoop b) (dropWhile isDecimalDigit r)"
proof (induction r arbitrary: b)
  case Nil
  then have "c b = []" by (simp add: reads_c)
  then have "digitLoop b = b" by (subst digitLoop.simps) simp
  with Nil show ?case by simp
next
  case (Cons x xs)
  then have cb: "c b = [x]" by simp
  show ?case
  proof (cases "isDecimalDigit x")
    case True
    with cb have "digitLoop b = digitLoop (take_char b)"
      by (subst digitLoop.simps) (simp add: isDecimalDigit_iff)
    with Cons.IH [OF reads_take_char [OF Cons.prems]] True show ?thesis by simp
  next
    case False
    with cb have "digitLoop b = b"
      by (subst digitLoop.simps) (auto simp: isDecimalDigit_iff)
    with False Cons.prems show ?thesis by simp
  qed
qed

lemma lexNumber_wellFormed:
  assumes r: "reads b r" and w: "wellFormedNumber r"
  shows "\<exists>b'. lexNumber b = Inr b'"
proof -
  define r1 where "r1 = (if take 1 r = js ''-'' then drop 1 r else r)"
  define r2 where "r2 = dropWhile isDecimalDigit r1"
  define r3 where "r3 = (if take 1 r2 = js ''.'' then dropWhile isDecimalDigit (drop 1 r2) else r2)"
  define r4 where "r4 = drop 1 r3"
  define r5 where "r5 = (if take 1 r4 = js ''+'' \<or> take 1 r4 = js ''-'' then drop 1 r4 else r4)"
  have "digitFirst r1 \<and> (take 1 r2 = js ''.'' \<longrightarrow> digitFirst (drop 1 r2))
      \<and> (take 1 r3 = js ''e'' \<or> take 1 r3 = js ''E'' \<longrightarrow> digitFirst r5)"
    using w unfolding wellFormedNumber_def Let_def r1_def r2_def r3_def r4_def r5_def .
  then have w1: "digitFirst r1" and w2: "take 1 r2 = js ''.'' \<longrightarrow> digitFirst (drop 1 r2)"
    and w3: "take 1 r3 = js ''e'' \<or> take 1 r3 = js ''E'' \<longrightarrow> digitFirst r5"
    by blast+
  have cb: "c b = take 1 r" by (rule reads_c [OF r])
  have "\<exists>a1. lexSign b = Inr a1 \<and> reads (digitLoop a1) r2"
  proof (cases "c b = js ''-''")
    case True
    then have n: "reads (take_char b) r1"
      using reads_step [OF r] cb by (simp add: r1_def)
    with w1 have "isDigit (c (take_char b))"
      by (simp add: reads_digit)
    with True have "lexSign b = Inr (take_char b)"
      by (simp add: lexSign_def)
    with reads_digitLoop [OF n] show ?thesis
      by (simp add: r2_def)
  next
    case False
    with cb have e: "r1 = r" by (simp add: r1_def)
    show ?thesis
    proof (cases "c b = js ''0''")
      case True
      with cb obtain xs where xs: "r = 0x30 # xs"
        by (cases r) simp_all
      with r have "reads (take_char b) xs"
        by (simp add: reads_take_char)
      then have "reads (digitLoop (take_char b)) (dropWhile isDecimalDigit xs)"
        by (rule reads_digitLoop)
      moreover have "dropWhile isDecimalDigit xs = r2"
        by (simp add: r2_def e xs isDecimalDigit_def)
      moreover from True False have "lexSign b = Inr (take_char b)"
        by (simp add: lexSign_def)
      ultimately show ?thesis by simp
    next
      case z: False
      with False have "lexSign b = Inr b"
        by (simp add: lexSign_def)
      with reads_digitLoop [OF r] e show ?thesis
        by (simp add: r2_def)
    qed
  qed
  then obtain a1 where s: "lexSign b = Inr a1" and f: "reads (digitLoop a1) r2" by blast
  have "\<exists>a2. lexFraction (digitLoop a1) = Inr a2 \<and> reads a2 r3"
  proof (cases "c (digitLoop a1) = js ''.''")
    case True
    then have t: "take 1 r2 = js ''.''"
      using reads_c [OF f] by simp
    have n: "reads (take_char (digitLoop a1)) (drop 1 r2)"
      using reads_step [OF f] True by simp
    with w2 t have "isDigit (c (take_char (digitLoop a1)))"
      by (simp add: reads_digit)
    with True have "lexFraction (digitLoop a1) = Inr (digitLoop (take_char (digitLoop a1)))"
      by (simp add: lexFraction_def)
    with reads_digitLoop [OF n] t show ?thesis
      by (simp add: r3_def)
  next
    case False
    then have "take 1 r2 \<noteq> js ''.''"
      using reads_c [OF f] by simp
    with False f show ?thesis
      by (simp add: lexFraction_def r3_def)
  qed
  then obtain a2 where fr: "lexFraction (digitLoop a1) = Inr a2" and g: "reads a2 r3" by blast
  have "\<exists>b'. lexExponent a2 = Inr b'"
  proof (cases "c a2 = js ''e'' \<or> c a2 = js ''E''")
    case True
    then have t: "take 1 r3 = js ''e'' \<or> take 1 r3 = js ''E''"
      using reads_c [OF g] by simp
    from True have ne: "c a2 \<noteq> []" by auto
    define s1 where "s1 = take_char a2"
    define s2 where "s2 = (if c s1 = js ''+'' \<or> c s1 = js ''-'' then take_char s1 else s1)"
    have n1: "reads s1 r4"
      unfolding s1_def r4_def by (rule reads_step [OF g ne])
    have n2: "reads s2 r5"
    proof (cases "c s1 = js ''+'' \<or> c s1 = js ''-''")
      case sign: True
      then have "c s1 \<noteq> []" by auto
      from reads_step [OF n1 this] sign reads_c [OF n1] show ?thesis
        by (simp add: s2_def r5_def)
    next
      case False
      with n1 reads_c [OF n1] show ?thesis
        by (simp add: s2_def r5_def)
    qed
    from w3 t have "digitFirst r5" by blast
    with n2 have "isDigit (c s2)"
      by (simp add: reads_digit)
    then have "lexExponent a2 = Inr (digitLoop s2)"
      using True unfolding lexExponent_def Let_def s2_def s1_def by simp
    then show ?thesis by simp
  next
    case False
    then show ?thesis by (simp add: lexExponent_def)
  qed
  with s fr show ?thesis
    by (auto simp: lexNumber_def)
qed

lemma skipWhitespace_reads:
  assumes "reads b (ws @ d # rem)" and "list_all isWhitespace ws" and "\<not> isWhitespace d"
  shows "skipWhitespace b = b\<lparr>index := index b + length ws, c := [d]\<rparr>"
  using assms
proof (induction ws arbitrary: b)
  case Nil
  then have "c b = [d]" by simp
  with Nil(3) show ?case
    by (subst skipWhitespace.simps) (simp add: isWhitespace_def)
next
  case (Cons x ws)
  then have cb: "c b = [x]" and x: "isWhitespace x" and r: "reads (js_next b) (ws @ d # rem)"
    by (simp_all add: reads_js_next)
  have "skipWhitespace b = skipWhitespace (js_next b)"
    using cb x by (subst skipWhitespace.simps) (auto simp: isWhitespace_def)
  also have "\<dots> = (js_next b)\<lparr>index := index (js_next b) + length ws, c := [d]\<rparr>"
    using Cons.IH [OF r] Cons.prems by simp
  finally show ?case by (simp add: js_next_def)
qed

lemma isAlpha_other:
  assumes "isAlpha [x]"
  shows "\<not> isDigit [x]" and "[x] \<noteq> js ''-''" and "[x] \<noteq> [0x22]" and "\<not> DELIMITERS [x]"
  using assms by (auto simp: DELIMITERS_def word_le_nat_alt word_less_nat_alt)

lemma startsToken_kinds:
  assumes "startsToken (x # rem)"
  shows "delimiter x \<or> isAlpha [x] \<or> (wellFormedNumber (x # rem) \<and> (isDecimalDigit x \<or> x = 0x2D))"
proof -
  have "isDecimalDigit x \<or> x = 0x2D" if "wellFormedNumber (x # rem)"
    using that by (auto simp: wellFormedNumber_def Let_def digitFirst_def split: if_splits)
  with assms show ?thesis
    by (auto simp: startsToken_def)
qed

lemma startsToken_not_whitespace: "startsToken (x # rem) \<Longrightarrow> \<not> isWhitespace x"
  by (auto dest!: startsToken_kinds simp: delimiter_def isWhitespace_def isDecimalDigit_def)

text \<open>
  The first token of trailing text that starts, after whitespace, with a delimiter, a
  symbol or a well-formed number: the tokenizer reads it, and it starts behind the
  whitespace.
\<close>

lemma first_trailing_token:
  assumes r: "reads b (ws @ x # rem)" and ws: "list_all isWhitespace ws" and st: "startsToken (x # rem)"
  shows "\<exists>b'. getToken b = Inr b' \<and> token b' \<noteq> [] \<and> tokenStart b' = int (index b + length ws)"
proof -
  define b0 where "b0 = b\<lparr>tokenType := NULL, token := []\<rparr>"
  define w where "w = b0\<lparr>index := index b + length ws, c := [x]\<rparr>"
  have r0: "reads b0 (ws @ x # rem)" using r by (simp add: b0_def)
  have sw: "skipWhitespace b0 = w"
    using skipWhitespace_reads [OF r0 ws startsToken_not_whitespace [OF st]]
    by (simp add: w_def b0_def)
  have cw: "consistent w"
    using follows_skipWhitespace [of b0] r0 sw by (simp add: reads_def follows_def)
  have rw: "reads w (x # rem)"
  proof -
    from r0 have "drop (index b0) (jsonText b0) = ws @ x # rem"
      by (simp add: reads_def)
    then have "drop (length ws) (drop (index b0) (jsonText b0)) = x # rem"
      by simp
    then show ?thesis
      using cw by (simp add: reads_def w_def b0_def add.commute)
  qed
  have w0: "token w = []" "index w = index b + length ws" "c w = [x]"
    by (simp_all add: w_def b0_def)
  have g: "getToken b =
      (if DELIMITERS (c w) then Inr (js_next (w\<lparr>tokenType := DELIMITER, token := c w\<rparr>))
       else if isDigit (c w) \<or> c w = js ''-'' then lexNumber (w\<lparr>tokenType := NUMBER\<rparr>)
       else if c w = [0x22] then lexString (w\<lparr>tokenType := STRING\<rparr>)
       else if isAlpha (c w) then Inr (alphaLoop (w\<lparr>tokenType := SYMBOL\<rparr>))
       else
         (let s1 = unknownLoop (w\<lparr>tokenType := UNKNOWN\<rparr>) in
          Inl (createSyntaxError (Syntax_error_in_part (token s1)) None s1)))"
    using sw by (simp add: getToken_def b0_def)
  from startsToken_kinds [OF st]
  consider (delim) "delimiter x"
    | (sym) "\<not> delimiter x" "isAlpha [x]"
    | (num) "\<not> delimiter x" "\<not> isAlpha [x]" "wellFormedNumber (x # rem)" "isDecimalDigit x \<or> x = 0x2D"
    by blast
  then show ?thesis
  proof cases
    case delim
    then have "DELIMITERS (c w)"
      by (auto simp: w0 delimiter_def DELIMITERS_def)
    with g have "getToken b = Inr (js_next (w\<lparr>tokenType := DELIMITER, token := [x]\<rparr>))"
      by (simp add: w0)
    then show ?thesis
      by (simp add: tokenStart_def js_next_def w0)
  next
    case sym
    then have a: "isAlpha (c w)" and d: "\<not> DELIMITERS (c w)" and n: "\<not> (isDigit (c w) \<or> c w = js ''-'')"
      and q: "c w \<noteq> [0x22]"
      using isAlpha_other [of x] by (simp_all add: w0)
    with g have e: "getToken b = Inr (alphaLoop (w\<lparr>tokenType := SYMBOL\<rparr>))"
      by simp
    define b' where "b' = alphaLoop (w\<lparr>tokenType := SYMBOL\<rparr>)"
    have ts: "tokenStart b' = int (index b + length ws)"
      unfolding b'_def using cw by (simp add: tokenStart_alphaLoop) (simp add: tokenStart_def w0)
    have "b' = alphaLoop (take_char (w\<lparr>tokenType := SYMBOL\<rparr>))"
      unfolding b'_def using a by (subst alphaLoop.simps) simp
    then have "index w < index b'"
      using follows_alphaLoop [of "take_char (w\<lparr>tokenType := SYMBOL\<rparr>)"]
      by (simp add: follows_def)
    with ts have "token b' \<noteq> []"
      by (auto simp: tokenStart_def w0)
    with e ts show ?thesis
      by (simp add: b'_def)
  next
    case num
    from num(1) have d: "\<not> DELIMITERS (c w)"
      by (auto simp: w0 delimiter_def DELIMITERS_def)
    from num(4) have n: "isDigit (c w) \<or> c w = js ''-''"
      by (auto simp: w0 isDecimalDigit_iff)
    from lexNumber_wellFormed [of "w\<lparr>tokenType := NUMBER\<rparr>" "x # rem"] rw num(3)
    obtain b' where l: "lexNumber (w\<lparr>tokenType := NUMBER\<rparr>) = Inr b'"
      by auto
    with g d n have e: "getToken b = Inr b'" by simp
    have ts: "tokenStart b' = int (index b + length ws)"
      using tokenStart_lexNumber [OF _ l] cw by (simp add: tokenStart_def w0)
    have "index w < index b'"
      using index_lexNumber [OF _ _ l] cw n by simp
    with ts have "token b' \<noteq> []"
      by (auto simp: tokenStart_def w0)
    with e ts show ?thesis by simp
  qed
qed

lemma skipWhitespace_through:
  "inside a \<Longrightarrow> skipWhitespace (longer rest a) = skipWhitespace (longer rest (skipWhitespace a))"
proof (induction a rule: skipWhitespace.induct)
  case (1 a)
  show ?case
  proof (cases "c a = js '' '' \<or> c a = [0x09] \<or> c a = [0x0A] \<or> c a = [0x0D]")
    case True
    then have ne: "c a \<noteq> []" by auto
    have s: "skipWhitespace a = skipWhitespace (js_next a)"
      using True by (subst skipWhitespace.simps) simp
    have "skipWhitespace (longer rest a) = skipWhitespace (js_next (longer rest a))"
      using True c_longer [OF "1.prems"(1) ne, of rest] by (subst skipWhitespace.simps) simp
    also have "\<dots> = skipWhitespace (longer rest (skipWhitespace (js_next a)))"
      using "1.IH" [OF True inside_js_next [OF "1.prems"(1) ne]]
      by (simp add: longer_js_next)
    finally show ?thesis using s by simp
  next
    case False
    then have "skipWhitespace a = a"
      by (subst skipWhitespace.simps) simp
    then show ?thesis by simp
  qed
qed

lemma skipWhitespace_token:
  "token (skipWhitespace s) = token s \<and> tokenType (skipWhitespace s) = tokenType s"
proof (induction s rule: skipWhitespace.induct)
  case (1 s)
  then show ?case
    by (subst (1 2) skipWhitespace.simps) (simp add: js_next_def)
qed

lemma inside_end:
  assumes "inside a" and "c a = []"
  shows "index a = length (jsonText a)"
proof (rule ccontr)
  assume "index a \<noteq> length (jsonText a)"
  with assms(1) have "index a < length (jsonText a)"
    by (simp add: inside_def)
  with assms(1) have "c a = [jsonText a ! index a]"
    by (simp add: inside_def consistent_def charAt_def)
  with assms(2) show False by simp
qed

lemma reads_longer_end:
  assumes "inside a" and "c a = []"
  shows "reads (longer rest a) rest"
proof -
  have "index a = length (jsonText a)"
    by (rule inside_end [OF assms])
  then have "drop (index (longer rest a)) (jsonText (longer rest a)) = rest"
    by simp
  then show ?thesis
    unfolding reads_def by simp
qed

text \<open>
  \<open>endState a\<close> is the state at the end of the text, before the tokenizer makes the empty
  token of it. \<open>beyond rest a\<close> is the state of the longer text that corresponds to a
  state of the text: the same place while the cursor is inside the text, and behind the
  first token of \<open>rest\<close> once the text has been read to its end.
\<close>

definition endState :: "pstate \<Rightarrow> pstate" where
  "endState a = a\<lparr>index := length (jsonText a), c := [], tokenType := NULL, token := []\<rparr>"

definition beyond :: "jsstring \<Rightarrow> pstate \<Rightarrow> pstate" where
  "beyond rest a =
     (if index a \<le> length (jsonText a) then longer rest a
      else (case getToken (longer rest (endState a)) of Inr b \<Rightarrow> b | Inl e \<Rightarrow> a))"

lemma endState_upd [simp]:
  "endState (a\<lparr>heap := h\<rparr>) = (endState a)\<lparr>heap := h\<rparr>"
  "endState (a\<lparr>stack := st\<rparr>) = (endState a)\<lparr>stack := st\<rparr>"
  "endState (a\<lparr>path := p\<rparr>) = (endState a)\<lparr>path := p\<rparr>"
  by (simp_all add: endState_def)

lemma endState_sel [simp]:
  "heap (endState a) = heap a" "stack (endState a) = stack a" "path (endState a) = path a"
  "jsonText (endState a) = jsonText a" "index (endState a) = length (jsonText a)" "c (endState a) = []"
  by (simp_all add: endState_def)

lemma inside_endState [simp]: "inside (endState a)"
  by (simp add: inside_def consistent_def charAt_def endState_def)

lemma beyond_upd [simp]:
  "beyond rest (a\<lparr>heap := h\<rparr>) = (beyond rest a)\<lparr>heap := h\<rparr>"
  "beyond rest (a\<lparr>stack := st\<rparr>) = (beyond rest a)\<lparr>stack := st\<rparr>"
  "beyond rest (a\<lparr>path := p\<rparr>) = (beyond rest a)\<lparr>path := p\<rparr>"
  by (cases "getToken (longer rest (endState a))";
      simp add: beyond_def getToken_heap getToken_stack getToken_path)+

lemma beyond_sel [simp]:
  "heap (beyond rest a) = heap a"
  "stack (beyond rest a) = stack a"
  "path (beyond rest a) = path a"
  by (cases "getToken (longer rest (endState a))"; simp add: beyond_def getToken_frame)+

lemma beyond_inside: "inside a \<Longrightarrow> beyond rest a = longer rest a"
  by (simp add: beyond_def inside_def)

lemma beyond_within: "within rest a \<Longrightarrow> beyond rest a = longer rest a"
  by (simp add: beyond_inside within_def)

lemma getToken_end:
  assumes i: "inside a" and g: "getToken a = Inr a'"
    and t: "tokenType a' = DELIMITER" "token a' = []"
  shows "c (skipWhitespace (a\<lparr>tokenType := NULL, token := []\<rparr>)) = []"
    and "a' = js_next ((skipWhitespace (a\<lparr>tokenType := NULL, token := []\<rparr>))\<lparr>tokenType := DELIMITER, token := []\<rparr>)"
proof -
  define w where "w = skipWhitespace (a\<lparr>tokenType := NULL, token := []\<rparr>)"
  have cw: "consistent w"
    using follows_skipWhitespace [of "a\<lparr>tokenType := NULL, token := []\<rparr>"] i
    by (simp add: w_def inside_def follows_def)
  have d: "DELIMITERS (c w)"
  proof (rule ccontr)
    assume n: "\<not> DELIMITERS (c w)"
    consider (num) "isDigit (c w) \<or> c w = js ''-''"
      | (str) "\<not> (isDigit (c w) \<or> c w = js ''-'')" "c w = [0x22]"
      | (sym) "\<not> (isDigit (c w) \<or> c w = js ''-'')" "c w \<noteq> [0x22]" "isAlpha (c w)"
      | (unk) "\<not> (isDigit (c w) \<or> c w = js ''-'')" "c w \<noteq> [0x22]" "\<not> isAlpha (c w)"
      by blast
    then show False
    proof cases
      case num
      with n g have "lexNumber (w\<lparr>tokenType := NUMBER\<rparr>) = Inr a'"
        by (simp add: getToken_def Let_def w_def)
      then have "tokenType a' = NUMBER"
        by (simp add: tokenType_lexNumber)
      with t show False by simp
    next
      case str
      with n g have "lexString (w\<lparr>tokenType := STRING\<rparr>) = Inr a'"
        by (simp add: getToken_def Let_def w_def)
      then have "tokenType a' = STRING"
        by (simp add: tokenType_lexString)
      with t show False by simp
    next
      case sym
      with n g have "a' = alphaLoop (w\<lparr>tokenType := SYMBOL\<rparr>)"
        by (simp add: getToken_def Let_def w_def)
      then have "tokenType a' = SYMBOL"
        by simp
      with t show False by simp
    next
      case unk
      with n g show False
        by (simp add: getToken_def Let_def w_def)
    qed
  qed
  with g have e: "a' = js_next (w\<lparr>tokenType := DELIMITER, token := c w\<rparr>)"
    by (simp add: getToken_def Let_def w_def)
  with t(2) show "c w = []" by (simp add: js_next_def)
  with e show "a' = js_next (w\<lparr>tokenType := DELIMITER, token := []\<rparr>)" by simp
qed

lemma getToken_beyond:
  assumes wi: "within rest a" and ok: "\<And>b. reads b rest \<Longrightarrow> \<exists>b'. getToken b = Inr b'"
    and g: "getToken a = Inr a'"
  shows "getToken (longer rest a) = Inr (beyond rest a')"
proof (cases "tokenType a' \<noteq> DELIMITER \<or> token a' \<noteq> []")
  case True
  from longer_getToken [OF wi g True] show ?thesis
    by (simp add: beyond_within)
next
  case False
  then have t: "tokenType a' = DELIMITER" "token a' = []" by simp_all
  from wi have i: "inside a" by (rule within_inside)
  define w where "w = skipWhitespace (a\<lparr>tokenType := NULL, token := []\<rparr>)"
  from getToken_end [OF i g t] have cw: "c w = []"
    and e: "a' = js_next (w\<lparr>tokenType := DELIMITER, token := []\<rparr>)"
    by (simp_all add: w_def)
  have iw: "inside w"
    unfolding w_def using i by (intro inside_skipWhitespace) simp
  have l: "index w = length (jsonText w)"
    by (rule inside_end [OF iw cw])
  have tw: "token w = []" "tokenType w = NULL"
    using skipWhitespace_token [of "a\<lparr>tokenType := NULL, token := []\<rparr>"] by (simp_all add: w_def)
  have ww: "w\<lparr>tokenType := NULL, token := []\<rparr> = w"
    using tw by (cases w) simp
  have bw: "endState a' = w"
    using l cw tw by (cases w) (simp add: e endState_def js_next_def)
  have "skipWhitespace ((longer rest a)\<lparr>tokenType := NULL, token := []\<rparr>) = skipWhitespace (longer rest w)"
    using skipWhitespace_through [of "a\<lparr>tokenType := NULL, token := []\<rparr>" rest] i
    by (simp add: w_def)
  moreover have "skipWhitespace ((longer rest w)\<lparr>tokenType := NULL, token := []\<rparr>) = skipWhitespace (longer rest w)"
    using ww by (simp add: longer_upd [symmetric] del: longer_upd)
  ultimately have same: "getToken (longer rest a) = getToken (longer rest w)"
    by (simp add: getToken_def)
  from ok [OF reads_longer_end [OF iw cw]] obtain b' where b': "getToken (longer rest w) = Inr b'"
    by blast
  have "length (jsonText a') < index a'"
    using l by (simp add: e js_next_def)
  then have "beyond rest a' = b'"
    using b' bw by (simp add: beyond_def)
  with same b' show ?thesis by simp
qed

lemma atToken_inside: "atToken a \<Longrightarrow> tokenType a \<noteq> DELIMITER \<or> token a \<noteq> [] \<Longrightarrow> inside a"
  using atToken_index [of a] by (simp add: inside_def atToken_def)

lemma consumed_inside:
  "consumed a a' \<Longrightarrow> tokenType a' \<noteq> DELIMITER \<or> token a' \<noteq> [] \<Longrightarrow> inside a'"
  by (simp add: consumed_atToken atToken_inside)

lemma within_consumed:
  "within rest a \<Longrightarrow> consumed a a' \<Longrightarrow> tokenType a' \<noteq> DELIMITER \<or> token a' \<noteq> [] \<Longrightarrow> within rest a'"
  using consumed_inside [of a a'] by (simp add: within_def consumed_def)

lemma within_consistent: "within rest a \<Longrightarrow> consistent a"
  by (simp add: within_def inside_def)

lemma returning_beyond:
  assumes "within rest a" and "\<And>b. reads b rest \<Longrightarrow> \<exists>b'. getToken b = Inr b'"
    and "returning v (getToken a) = Inr (v', a')"
  shows "returning v (getToken (longer rest a)) = Inr (v', beyond rest a')"
proof -
  from assms(3) have "getToken a = Inr a'" and "v' = v"
    by (auto simp: returning_def split: sum.splits)
  with getToken_beyond [OF assms(1,2), of a'] show ?thesis
    by (simp add: returning_def)
qed

lemma parseString_beyond:
  assumes "within rest a" and "\<And>b. reads b rest \<Longrightarrow> \<exists>b'. getToken b = Inr b'"
    and "parseString a = Inr (v, a')"
  shows "parseString (longer rest a) = Inr (v, beyond rest a')"
  using assms(3) returning_beyond [OF assms(1,2), of _ v a']
  by (auto simp: parseString_def parseNumber_def parseSymbol_def parseEnd_def Let_def
      split: if_splits)

lemma setProperty_longer:
  "setProperty obj key v (longer rest a) = map_sum id (longer rest) (setProperty obj key v a)"
  by (auto simp: setProperty_def split: container.splits jsvalue.splits)

lemma push_longer: "push arr v (longer rest a) = longer rest (push arr v a)"
  by (auto simp: push_def split: container.splits)

lemma arrayIndex_longer: "arrayIndex arr i (longer rest a) = longer rest (arrayIndex arr i a)"
  by (simp add: arrayIndex_def arrayLength_def)

lemma isCircular_heap: "heap b = heap a \<Longrightarrow> isCircular obj b = isCircular obj a"
  by (simp add: isCircular_def dollar_ref_def keys_def)

lemma parseCircular_frame:
  assumes "heap b = heap a" and "path b = path a" and "stack b = stack a"
    and "parseCircular env obj a = Inr (v, a')"
  shows "parseCircular env obj b = Inr (v, b)"
  using assms by (auto simp: parseCircular_def dollar_ref_def split: if_splits sum.splits)

lemma closeObject_beyond:
  assumes i: "within rest a" and ok: "\<And>b. reads b rest \<Longrightarrow> \<exists>b'. getToken b = Inr b'"
    and r: "closeObject env obj k a = Inr (v, a')"
  shows "closeObject env obj k (longer rest a) = Inr (v, beyond rest a')"
proof -
  from r obtain a1 where t: "tokenType a = DELIMITER" "token a = js ''}''" and g: "getToken a = Inr a1"
    by (auto simp: closeObject_def split: if_splits sum.splits)
  note gb = getToken_beyond [OF i ok g]
  show ?thesis
  proof (cases "isCircular obj a1")
    case True
    with r t g have p: "parseCircular env obj a1 = Inr (v, a')"
      by (simp add: closeObject_def)
    then have "a' = a1" by (rule parseCircular_state)
    moreover have "parseCircular env obj (beyond rest a1) = Inr (v, beyond rest a1)"
      by (rule parseCircular_frame [OF _ _ _ p]) simp_all
    moreover have "isCircular obj (beyond rest a1)"
      using True isCircular_heap [of "beyond rest a1" a1 obj] by simp
    ultimately show ?thesis
      using t gb by (simp add: closeObject_def)
  next
    case False
    with r t g have "v = JRef obj"
      and "a' = a1\<lparr>stack := js_set_length (stack a1) k, path := js_set_length (path a1) k\<rparr>"
      by (simp_all add: closeObject_def)
    moreover have "\<not> isCircular obj (beyond rest a1)"
      using False isCircular_heap [of "beyond rest a1" a1 obj] by simp
    ultimately show ?thesis
      using t gb by (simp add: closeObject_def)
  qed
qed

lemma closeArray_beyond:
  assumes i: "within rest a" and ok: "\<And>b. reads b rest \<Longrightarrow> \<exists>b'. getToken b = Inr b'"
    and r: "closeArray arr k a = Inr (v, a')"
  shows "closeArray arr k (longer rest a) = Inr (v, beyond rest a')"
proof -
  from r obtain a1 where t: "tokenType a = DELIMITER" "token a = js '']''" and g: "getToken a = Inr a1"
    and e: "v = JRef arr" "a' = a1\<lparr>stack := js_set_length (stack a1) k, path := js_set_length (path a1) k\<rparr>"
    by (auto simp: closeArray_def split: if_splits sum.splits)
  from getToken_beyond [OF i ok g] t e show ?thesis
    by (simp add: closeArray_def)
qed

lemma openObject_empty_beyond:
  assumes i: "within rest a" and ok: "\<And>b. reads b rest \<Longrightarrow> \<exists>b'. getToken b = Inr b'"
    and r: "openObject a = Inl (Inr (v, a'))"
  shows "openObject (longer rest a) = Inl (Inr (v, beyond rest a'))"
proof -
  from r obtain a1 where g: "getToken a = Inr a1"
    and t: "tokenType a1 = DELIMITER" "token a1 = js ''}''"
    and q: "returning (JRef (length (heap a1))) (getToken (a1\<lparr>heap := heap a1 @ [JObject ProtoObject []]\<rparr>)) = Inr (v, a')"
    by (auto simp: openObject_def alloc_def Let_def split: sum.splits if_splits)
  from t have n: "tokenType a1 \<noteq> DELIMITER \<or> token a1 \<noteq> []" by simp
  from longer_getToken [OF i g n]
  have gb: "getToken (longer rest a) = Inr (longer rest a1)" "within rest a1"
    by simp_all
  from returning_beyond [OF _ ok q] gb(2)
  have "returning (JRef (length (heap a1)))
          (getToken ((longer rest a1)\<lparr>heap := heap a1 @ [JObject ProtoObject []]\<rparr>))
        = Inr (v, beyond rest a')"
    by simp
  with gb(1) t show ?thesis
    by (simp add: openObject_def alloc_def Let_def)
qed

lemma openObject_longer:
  assumes i: "within rest a" and r: "openObject a = Inr (obj, k, a')"
    and n: "tokenType a' \<noteq> DELIMITER \<or> token a' \<noteq> []"
  shows "openObject (longer rest a) = Inr (obj, k, longer rest a')" and "within rest a'"
proof -
  from r obtain a1 where g: "getToken a = Inr a1"
    and t: "\<not> (tokenType a1 = DELIMITER \<and> token a1 = js ''}'')"
    and e: "obj = length (heap a1)" "k = length (stack a1)"
      "a' = a1\<lparr>heap := heap a1 @ [JObject ProtoObject []],
               stack := js_set (stack a1) (length (stack a1)) (JRef (length (heap a1)))\<rparr>"
    by (auto simp: openObject_def alloc_def Let_def split: sum.splits if_splits)
  from n e have n1: "tokenType a1 \<noteq> DELIMITER \<or> token a1 \<noteq> []" by simp
  from longer_getToken [OF i g n1]
  have gb: "getToken (longer rest a) = Inr (longer rest a1)" "within rest a1"
    by simp_all
  from gb(2) e show "within rest a'" by simp
  from gb(1) t e show "openObject (longer rest a) = Inr (obj, k, longer rest a')"
    by (simp add: openObject_def alloc_def Let_def)
qed

lemma openArray_empty_beyond:
  assumes i: "within rest a" and ok: "\<And>b. reads b rest \<Longrightarrow> \<exists>b'. getToken b = Inr b'"
    and r: "openArray a = Inl (Inr (v, a'))"
  shows "openArray (longer rest a) = Inl (Inr (v, beyond rest a'))"
proof -
  from r obtain a1 where g: "getToken a = Inr a1"
    and t: "tokenType a1 = DELIMITER" "token a1 = js '']''"
    and q: "returning (JRef (length (heap a1))) (getToken (a1\<lparr>heap := heap a1 @ [JArray []]\<rparr>)) = Inr (v, a')"
    by (auto simp: openArray_def alloc_def Let_def split: sum.splits if_splits)
  from t have n: "tokenType a1 \<noteq> DELIMITER \<or> token a1 \<noteq> []" by simp
  from longer_getToken [OF i g n]
  have gb: "getToken (longer rest a) = Inr (longer rest a1)" "within rest a1"
    by simp_all
  from returning_beyond [OF _ ok q] gb(2)
  have "returning (JRef (length (heap a1)))
          (getToken ((longer rest a1)\<lparr>heap := heap a1 @ [JArray []]\<rparr>))
        = Inr (v, beyond rest a')"
    by simp
  with gb(1) t show ?thesis
    by (simp add: openArray_def alloc_def Let_def)
qed

lemma openArray_longer:
  assumes i: "within rest a" and r: "openArray a = Inr (arr, k, a')"
    and n: "tokenType a' \<noteq> DELIMITER \<or> token a' \<noteq> []"
  shows "openArray (longer rest a) = Inr (arr, k, longer rest a')" and "within rest a'"
proof -
  from r obtain a1 where g: "getToken a = Inr a1"
    and t: "\<not> (tokenType a1 = DELIMITER \<and> token a1 = js '']'')"
    and e: "arr = length (heap a1)" "k = length (stack a1)"
      "a' = a1\<lparr>heap := heap a1 @ [JArray []],
               stack := js_set (stack a1) (length (stack a1)) (JRef (length (heap a1)))\<rparr>"
    by (auto simp: openArray_def alloc_def Let_def split: sum.splits if_splits)
  from n e have n1: "tokenType a1 \<noteq> DELIMITER \<or> token a1 \<noteq> []" by simp
  from longer_getToken [OF i g n1]
  have gb: "getToken (longer rest a) = Inr (longer rest a1)" "within rest a1"
    by simp_all
  from gb(2) e show "within rest a'" by simp
  from gb(1) t e show "openArray (longer rest a) = Inr (arr, k, longer rest a')"
    by (simp add: openArray_def alloc_def Let_def)
qed

lemma objectKey_beyond:
  assumes i: "within rest a" and ok: "\<And>b. reads b rest \<Longrightarrow> \<exists>b'. getToken b = Inr b'"
    and r: "objectKey k a = Inr (key, a')"
  shows "objectKey k (longer rest a) = Inr (key, beyond rest a')"
proof -
  from r obtain a1 a2 where s: "tokenType a = STRING" "key = token a" and g1: "getToken a = Inr a1"
    and t: "tokenType a1 = DELIMITER" "token a1 = js '':''" and g2: "getToken a1 = Inr a2"
    and e: "a' = a2\<lparr>path := js_set (path a2) k (JString key)\<rparr>"
    by (auto simp: objectKey_def Let_def split: sum.splits if_splits)
  from t have n: "tokenType a1 \<noteq> DELIMITER \<or> token a1 \<noteq> []" by simp
  from longer_getToken [OF i g1 n]
  have gb: "getToken (longer rest a) = Inr (longer rest a1)" "within rest a1"
    by simp_all
  from getToken_beyond [OF gb(2) ok g2] gb(1) s t e show ?thesis
    by (simp add: objectKey_def Let_def)
qed

lemma objectValue_beyond:
  assumes i: "within rest a" and ok: "\<And>b. reads b rest \<Longrightarrow> \<exists>b'. getToken b = Inr b'"
  shows "objectValue env obj k key v a = Inl (Inr (v', a')) \<Longrightarrow>
           objectValue env obj k key v (longer rest a) = Inl (Inr (v', beyond rest a'))"
    and "objectValue env obj k key v a = Inr a' \<Longrightarrow>
           objectValue env obj k key v (longer rest a) = Inr (beyond rest a')"
proof -
  show "objectValue env obj k key v (longer rest a) = Inl (Inr (v', beyond rest a'))"
    if r: "objectValue env obj k key v a = Inl (Inr (v', a'))"
  proof -
    from r obtain a1 where p: "setProperty obj key v a = Inr a1"
      and t: "tokenType a1 \<noteq> DELIMITER \<or> token a1 \<noteq> js '',''"
      and q: "closeObject env obj k a1 = Inr (v', a')"
      by (auto simp: objectValue_def split: sum.splits if_splits)
    from setProperty_frame [OF p] i have "within rest a1"
      by (metis within_upd(3))
    from closeObject_beyond [OF this ok q] p t show ?thesis
      by (auto simp: objectValue_def setProperty_longer)
  qed
  show "objectValue env obj k key v (longer rest a) = Inr (beyond rest a')"
    if r: "objectValue env obj k key v a = Inr a'"
  proof -
    from r obtain a1 where p: "setProperty obj key v a = Inr a1"
      and t: "tokenType a1 = DELIMITER" "token a1 = js '',''"
      and g: "getToken a1 = Inr a'"
      by (auto simp: objectValue_def split: sum.splits if_splits)
    from setProperty_frame [OF p] i have "within rest a1"
      by (metis within_upd(3))
    from getToken_beyond [OF this ok g] p t show ?thesis
      by (simp add: objectValue_def setProperty_longer)
  qed
qed

lemma arrayValue_beyond:
  assumes i: "within rest a" and ok: "\<And>b. reads b rest \<Longrightarrow> \<exists>b'. getToken b = Inr b'"
  shows "arrayValue arr k v a = Inl (Inr (v', a')) \<Longrightarrow>
           arrayValue arr k v (longer rest a) = Inl (Inr (v', beyond rest a'))"
    and "arrayValue arr k v a = Inr a' \<Longrightarrow>
           arrayValue arr k v (longer rest a) = Inr (beyond rest a')"
proof -
  have ip: "within rest (push arr v a)"
    using push_frame [of arr v a] i by (metis within_upd(3))
  show "arrayValue arr k v (longer rest a) = Inl (Inr (v', beyond rest a'))"
    if r: "arrayValue arr k v a = Inl (Inr (v', a'))"
  proof -
    from r have t: "tokenType (push arr v a) \<noteq> DELIMITER \<or> token (push arr v a) \<noteq> js '',''"
      and q: "closeArray arr k (push arr v a) = Inr (v', a')"
      by (auto simp: arrayValue_def Let_def split: sum.splits if_splits)
    from closeArray_beyond [OF ip ok q] t show ?thesis
      by (auto simp: arrayValue_def Let_def push_longer)
  qed
  show "arrayValue arr k v (longer rest a) = Inr (beyond rest a')"
    if r: "arrayValue arr k v a = Inr a'"
  proof -
    from r have t: "tokenType (push arr v a) = DELIMITER" "token (push arr v a) = js '',''"
      and g: "getToken (push arr v a) = Inr a'"
      by (auto simp: arrayValue_def Let_def split: sum.splits if_splits)
    from getToken_beyond [OF ip ok g] t show ?thesis
      by (simp add: arrayValue_def Let_def push_longer)
  qed
qed

text \<open>Nothing succeeds on the empty token that stands for the end of the text.\<close>

lemma parseObject_at_end:
  "tokenType a = DELIMITER \<Longrightarrow> token a = [] \<Longrightarrow> parseObject env n a \<noteq> Some (Inr x)"
  by (cases n) (simp_all add: parseString_def parseNumber_def parseSymbol_def parseEnd_def)

lemma objectLoop_at_end:
  "tokenType a = DELIMITER \<Longrightarrow> objectLoop env n obj k a \<noteq> Some (Inr x)"
  by (cases n) (simp_all add: objectKey_def)

lemma arrayLoop_at_end:
  "tokenType a = DELIMITER \<Longrightarrow> token a = [] \<Longrightarrow> arrayLoop env n arr k a \<noteq> Some (Inr x)"
proof (cases n)
  case 0
  then show ?thesis by simp
next
  case (Suc m)
  assume "tokenType a = DELIMITER" "token a = []"
  then have "parseObject env m (arrayIndex arr k a) \<noteq> Some (Inr y)" for y
    by (intro parseObject_at_end) (simp_all add: arrayIndex_def)
  with Suc show ?thesis
    by (auto split: option.splits sum.splits)
qed

lemma objectValue_at_end:
  assumes "tokenType a = DELIMITER" and "token a = []"
  shows "objectValue env obj k key v a \<noteq> Inl (Inr x)" and "objectValue env obj k key v a \<noteq> Inr a'"
proof -
  have "tokenType a1 = DELIMITER \<and> token a1 = []" if "setProperty obj key v a = Inr a1" for a1
    using setProperty_frame [OF that] assms by (metis pstate.select_convs(4,5) pstate.surjective pstate.update_convs(8))
  then show "objectValue env obj k key v a \<noteq> Inl (Inr x)" and "objectValue env obj k key v a \<noteq> Inr a'"
    by (auto simp: objectValue_def closeObject_def split: sum.splits)
qed

lemma arrayValue_at_end:
  assumes "tokenType a = DELIMITER" and "token a = []"
  shows "arrayValue arr k v a \<noteq> Inl (Inr x)" and "arrayValue arr k v a \<noteq> Inr a'"
proof -
  have "tokenType (push arr v a) = DELIMITER \<and> token (push arr v a) = []"
    using push_frame [of arr v a] assms by (metis pstate.select_convs(4,5) pstate.surjective pstate.update_convs(8))
  then show "arrayValue arr k v a \<noteq> Inl (Inr x)" and "arrayValue arr k v a \<noteq> Inr a'"
    by (auto simp: arrayValue_def Let_def closeArray_def split: sum.splits)
qed

lemma parseObject_consumed:
  assumes "atToken s" and "parseObject env n s = Some (Inr (v, s'))"
  shows "consumed s s'"
proof -
  have "parseObject env (n + Suc (left s)) s = Some (Inr (v, s'))"
    using parser_more [of env n "Suc (left s)"] assms(2) by blast
  moreover have "returns (parseObject env (n + Suc (left s)) s) s"
    using parser_returns [of "n + Suc (left s)" env] assms(1) by simp
  ultimately show ?thesis by simp
qed

lemma objectLoop_extends:
  assumes ok: "\<And>b. reads b rest \<Longrightarrow> \<exists>b'. getToken b = Inr b'"
    and po: "\<And>a v a'. within rest a \<Longrightarrow> parseObject env n a = Some (Inr (v, a'))
               \<Longrightarrow> parseObject env n (longer rest a) = Some (Inr (v, beyond rest a'))"
    and ol: "\<And>a v a'. within rest a \<Longrightarrow> objectLoop env n obj k a = Some (Inr (v, a'))
               \<Longrightarrow> objectLoop env n obj k (longer rest a) = Some (Inr (v, beyond rest a'))"
    and i: "within rest a" and r: "objectLoop env (Suc n) obj k a = Some (Inr (v, a'))"
  shows "objectLoop env (Suc n) obj k (longer rest a) = Some (Inr (v, beyond rest a'))"
proof -
  from r obtain key a1 where k: "objectKey k a = Inr (key, a1)"
    by (cases "objectKey k a") auto
  from r k obtain v1 a2 where p: "parseObject env n a1 = Some (Inr (v1, a2))"
    by (cases "parseObject env n a1") (auto split: sum.splits)
  have c1: "consumed a a1"
    by (rule objectKey_consumed [OF within_consistent [OF i] k])
  have n1: "tokenType a1 \<noteq> DELIMITER \<or> token a1 \<noteq> []"
    using parseObject_at_end [of a1 env n "(v1, a2)"] p by blast
  have i1: "within rest a1"
    by (rule within_consumed [OF i c1 n1])
  have kb: "objectKey k (longer rest a) = Inr (key, longer rest a1)"
    using objectKey_beyond [OF i ok k] i1 by (simp add: beyond_within)
  have c2: "consumed a1 a2"
    by (rule parseObject_consumed [OF consumed_atToken [OF c1] p])
  show ?thesis
  proof (cases "objectValue env obj k key v1 a2")
    case (Inl q)
    with r k p have q: "q = Inr (v, a')" by simp
    with Inl have n2: "tokenType a2 \<noteq> DELIMITER \<or> token a2 \<noteq> []"
      using objectValue_at_end(1) [of a2 env obj k key v1 "(v, a')"] by blast
    have i2: "within rest a2"
      by (rule within_consumed [OF i1 c2 n2])
    have pb: "parseObject env n (longer rest a1) = Some (Inr (v1, longer rest a2))"
      using po [OF i1 p] i2 by (simp add: beyond_within)
    from objectValue_beyond(1) [OF i2 ok, of env obj k key v1 v a'] Inl q kb pb
    show ?thesis by simp
  next
    case (Inr a3)
    with r k p have l: "objectLoop env n obj k a3 = Some (Inr (v, a'))" by simp
    from Inr have n2: "tokenType a2 \<noteq> DELIMITER \<or> token a2 \<noteq> []"
      using objectValue_at_end(2) [of a2 env obj k key v1 a3] by blast
    have i2: "within rest a2"
      by (rule within_consumed [OF i1 c2 n2])
    have pb: "parseObject env n (longer rest a1) = Some (Inr (v1, longer rest a2))"
      using po [OF i1 p] i2 by (simp add: beyond_within)
    have c3: "consumed a2 a3"
      by (rule objectValue_consumed(2) [OF within_consistent [OF i2] Inr])
    have n3: "tokenType a3 \<noteq> DELIMITER"
      using objectLoop_at_end [of a3 env n obj k "(v, a')"] l by blast
    then have i3: "within rest a3"
      by (intro within_consumed [OF i2 c3]) simp
    have "objectValue env obj k key v1 (longer rest a2) = Inr (longer rest a3)"
      using objectValue_beyond(2) [OF i2 ok Inr] i3 by (simp add: beyond_within)
    with ol [OF i3 l] kb pb show ?thesis by simp
  qed
qed

lemma arrayLoop_extends:
  assumes ok: "\<And>b. reads b rest \<Longrightarrow> \<exists>b'. getToken b = Inr b'"
    and po: "\<And>a v a'. within rest a \<Longrightarrow> parseObject env n a = Some (Inr (v, a'))
               \<Longrightarrow> parseObject env n (longer rest a) = Some (Inr (v, beyond rest a'))"
    and al: "\<And>a v a'. within rest a \<Longrightarrow> arrayLoop env n arr k a = Some (Inr (v, a'))
               \<Longrightarrow> arrayLoop env n arr k (longer rest a) = Some (Inr (v, beyond rest a'))"
    and i: "within rest a" and r: "arrayLoop env (Suc n) arr k a = Some (Inr (v, a'))"
  shows "arrayLoop env (Suc n) arr k (longer rest a) = Some (Inr (v, beyond rest a'))"
proof -
  define a0 where "a0 = arrayIndex arr k a"
  have i0: "within rest a0" using i by (simp add: a0_def arrayIndex_def)
  from r obtain v1 a1 where p: "parseObject env n a0 = Some (Inr (v1, a1))"
    by (cases "parseObject env n a0") (auto simp: a0_def split: sum.splits)
  have at0: "atToken a0"
  proof -
    have "tokenType a0 \<noteq> DELIMITER \<or> token a0 \<noteq> []"
      using parseObject_at_end [of a0 env n "(v1, a1)"] p by blast
    with i0 show ?thesis
      by (auto simp: atToken_def inside_def within_def)
  qed
  have c1: "consumed a0 a1"
    by (rule parseObject_consumed [OF at0 p])
  show ?thesis
  proof (cases "arrayValue arr k v1 a1")
    case (Inl q)
    with r p have q: "q = Inr (v, a')" by (simp add: a0_def)
    with Inl have n1: "tokenType a1 \<noteq> DELIMITER \<or> token a1 \<noteq> []"
      using arrayValue_at_end(1) [of a1 arr k v1 "(v, a')"] by blast
    have i1: "within rest a1"
      by (rule within_consumed [OF i0 c1 n1])
    have pb: "parseObject env n (longer rest a0) = Some (Inr (v1, longer rest a1))"
      using po [OF i0 p] i1 by (simp add: beyond_within)
    from arrayValue_beyond(1) [OF i1 ok, of arr k v1 v a'] Inl q pb
    show ?thesis by (simp add: arrayIndex_longer a0_def)
  next
    case (Inr a2)
    with r p have l: "arrayLoop env n arr k a2 = Some (Inr (v, a'))" by (simp add: a0_def)
    from Inr have n1: "tokenType a1 \<noteq> DELIMITER \<or> token a1 \<noteq> []"
      using arrayValue_at_end(2) [of a1 arr k v1 a2] by blast
    have i1: "within rest a1"
      by (rule within_consumed [OF i0 c1 n1])
    have pb: "parseObject env n (longer rest a0) = Some (Inr (v1, longer rest a1))"
      using po [OF i0 p] i1 by (simp add: beyond_within)
    have c2: "consumed a1 a2"
      by (rule arrayValue_consumed(2) [OF within_consistent [OF i1] Inr])
    have n2: "tokenType a2 \<noteq> DELIMITER \<or> token a2 \<noteq> []"
      using arrayLoop_at_end [of a2 env n arr k "(v, a')"] l by blast
    have i2: "within rest a2"
      by (rule within_consumed [OF i1 c2 n2])
    have "arrayValue arr k v1 (longer rest a1) = Inr (longer rest a2)"
      using arrayValue_beyond(2) [OF i1 ok Inr] i2 by (simp add: beyond_within)
    with al [OF i2 l] pb show ?thesis by (simp add: arrayIndex_longer a0_def)
  qed
qed

lemma parseArray_extends:
  assumes ok: "\<And>b. reads b rest \<Longrightarrow> \<exists>b'. getToken b = Inr b'"
    and al: "\<And>a arr k v a'. within rest a \<Longrightarrow> arrayLoop env n arr k a = Some (Inr (v, a'))
               \<Longrightarrow> arrayLoop env n arr k (longer rest a) = Some (Inr (v, beyond rest a'))"
    and i: "within rest a" and r: "parseArray env n a = Some (Inr (v, a'))"
  shows "parseArray env n (longer rest a) = Some (Inr (v, beyond rest a'))"
proof (cases "tokenType a = DELIMITER \<and> token a = js ''[''")
  case False
  with r have "parseString a = Inr (v, a')" by auto
  from parseString_beyond [OF i ok this] False show ?thesis by auto
next
  case True
  show ?thesis
  proof (cases "openArray a")
    case (Inl q)
    with True r have "openArray a = Inl (Inr (v, a'))" by simp
    from openArray_empty_beyond [OF i ok this] True show ?thesis by simp
  next
    case (Inr aks)
    obtain arr k a1 where "aks = (arr, k, a1)" by (cases aks)
    with Inr have o: "openArray a = Inr (arr, k, a1)" by simp
    with True r have l: "arrayLoop env n arr k a1 = Some (Inr (v, a'))" by simp
    have n1: "tokenType a1 \<noteq> DELIMITER \<or> token a1 \<noteq> []"
      using arrayLoop_at_end [of a1 env n arr k "(v, a')"] l by blast
    from openArray_longer(1) [OF i o n1] openArray_longer(2) [OF i o n1]
    have "openArray (longer rest a) = Inr (arr, k, longer rest a1)" and "within rest a1"
      by simp_all
    with al [OF _ l] True show ?thesis by simp
  qed
qed

lemma parseObject_extends_step:
  assumes ok: "\<And>b. reads b rest \<Longrightarrow> \<exists>b'. getToken b = Inr b'"
    and ol: "\<And>a obj k v a'. within rest a \<Longrightarrow> objectLoop env (Suc n) obj k a = Some (Inr (v, a'))
               \<Longrightarrow> objectLoop env (Suc n) obj k (longer rest a) = Some (Inr (v, beyond rest a'))"
    and pa: "\<And>a v a'. within rest a \<Longrightarrow> parseArray env (Suc n) a = Some (Inr (v, a'))
               \<Longrightarrow> parseArray env (Suc n) (longer rest a) = Some (Inr (v, beyond rest a'))"
    and i: "within rest a" and r: "parseObject env (Suc n) a = Some (Inr (v, a'))"
  shows "parseObject env (Suc n) (longer rest a) = Some (Inr (v, beyond rest a'))"
proof (cases "tokenType a = DELIMITER \<and> token a = js ''{''")
  case False
  with r have "parseArray env (Suc n) a = Some (Inr (v, a'))"
    by (auto simp del: parseArray.simps)
  from pa [OF i this] False show ?thesis
    by (auto simp del: parseArray.simps)
next
  case True
  show ?thesis
  proof (cases "openObject a")
    case (Inl q)
    with True r have "openObject a = Inl (Inr (v, a'))" by simp
    from openObject_empty_beyond [OF i ok this] True show ?thesis by simp
  next
    case (Inr oks)
    obtain obj k a1 where "oks = (obj, k, a1)" by (cases oks)
    with Inr have o: "openObject a = Inr (obj, k, a1)" by simp
    with True r have l: "objectLoop env (Suc n) obj k a1 = Some (Inr (v, a'))"
      by (simp del: objectLoop.simps)
    have n1: "tokenType a1 \<noteq> DELIMITER \<or> token a1 \<noteq> []"
      using objectLoop_at_end [of a1 env "Suc n" obj k "(v, a')"] l by blast
    from openObject_longer(1) [OF i o n1] openObject_longer(2) [OF i o n1]
    have "openObject (longer rest a) = Inr (obj, k, longer rest a1)" and "within rest a1"
      by simp_all
    with ol [OF _ l] True show ?thesis
      by (simp del: objectLoop.simps)
  qed
qed

lemma parser_extends:
  assumes ok: "\<And>b. reads b rest \<Longrightarrow> \<exists>b'. getToken b = Inr b'"
  shows "(\<forall>a v a'. within rest a \<longrightarrow> parseObject env n a = Some (Inr (v, a'))
            \<longrightarrow> parseObject env n (longer rest a) = Some (Inr (v, beyond rest a')))
   \<and> (\<forall>a obj k v a'. within rest a \<longrightarrow> objectLoop env n obj k a = Some (Inr (v, a'))
            \<longrightarrow> objectLoop env n obj k (longer rest a) = Some (Inr (v, beyond rest a')))
   \<and> (\<forall>a arr k v a'. within rest a \<longrightarrow> arrayLoop env n arr k a = Some (Inr (v, a'))
            \<longrightarrow> arrayLoop env n arr k (longer rest a) = Some (Inr (v, beyond rest a')))"
proof (induction n)
  case 0
  then show ?case by simp
next
  case (Suc n)
  have ol: "objectLoop env (Suc n) obj k (longer rest a) = Some (Inr (v, beyond rest a'))"
    if "within rest a" "objectLoop env (Suc n) obj k a = Some (Inr (v, a'))" for a obj k v a'
    using Suc that by (intro objectLoop_extends [OF ok]) auto
  have al: "arrayLoop env (Suc n) arr k (longer rest a) = Some (Inr (v, beyond rest a'))"
    if "within rest a" "arrayLoop env (Suc n) arr k a = Some (Inr (v, a'))" for a arr k v a'
    using Suc that by (intro arrayLoop_extends [OF ok]) auto
  have pa: "parseArray env (Suc n) (longer rest a) = Some (Inr (v, beyond rest a'))"
    if "within rest a" "parseArray env (Suc n) a = Some (Inr (v, a'))" for a v a'
    using al that by (intro parseArray_extends [OF ok]) auto
  have po: "parseObject env (Suc n) (longer rest a) = Some (Inr (v, beyond rest a'))"
    if "within rest a" "parseObject env (Suc n) a = Some (Inr (v, a'))" for a v a'
    using ol pa that by (intro parseObject_extends_step [OF ok]) auto
  from ol al po show ?case by blast
qed

lemma initialize_longer: "initialize (v @ rest) s0 = longer rest (initialize v s0)"
  by (simp add: initialize_def longer_def)

lemma inside_initialize: "inside (initialize v s0)"
  by (simp add: inside_def initialize_consistent) (simp add: initialize_def)

text \<open>
  C6 says that every input that is a complete well-formed value followed by trailing
  content other than whitespace fails with an Unexpected-characters error at the offset of
  the first unconsumed character. The tokenizer reads the token after the value before
  \<open>parse\<close> looks at it, so trailing content that is no token fails in the tokenizer with
  another error: the text \<open>1 @\<close> gives a syntax error in the part \<open>@\<close>.
\<close>

theorem trailing_input_counterexample:
  "result (parse (exampleEnv False []) 1 (js ''1'') None moduleLoaded)
     = Some (Inr (JNumber (Double False 4503599627370496 (- 52))))
   \<and> result (parse (exampleEnv False []) 1 (js ''1 @'') None moduleLoaded)
     = Some (Inl (SyntaxError (Syntax_error_in_part (js ''@'')) 2))"
  by code_simp

text \<open>
  For a trailing string token the offset that \<open>parse\<close> reports is the cursor less the
  length of the decoded token, which is not where the token starts; and a trailing empty
  string is taken for the end of the text, also when more text follows it.
\<close>

lemma trailing_string_examples:
  \<open>result (parse (exampleEnv False []) 1 (js ''1 "ab"'') None moduleLoaded)
     = Some (Inl (SyntaxError Unexpected_characters 4))
   \<and> result (parse (exampleEnv False []) 1 (js ''1 ""'') None moduleLoaded)
     = Some (Inr (JNumber (Double False 4503599627370496 (- 52))))
   \<and> result (parse (exampleEnv False []) 1 (js ''1 "",'') None moduleLoaded)
     = Some (Inr (JNumber (Double False 4503599627370496 (- 52))))\<close>
  by code_simp

text \<open>
  Text that continues the last token of the value is no trailing content: \<open>12\<close> is a
  number and \<open>nullx\<close> one unknown symbol. A trailing number that is not well-formed fails
  in the tokenizer, as \<open>@\<close> does. An exponent mark continues a number unless the number
  has an exponent already, as in \<open>1e5e\<close>.
\<close>

lemma trailing_number_examples:
  \<open>result (parse (exampleEnv False []) 1 (js ''12'') None moduleLoaded)
     = Some (Inr (JNumber (Double False 6755399441055744 (- 49))))
   \<and> result (parse (exampleEnv False []) 1 (js ''nullx'') None moduleLoaded)
     = Some (Inl (SyntaxError (Unknown_symbol (js ''nullx'')) 0))
   \<and> result (parse (exampleEnv False []) 1 (js ''1 2.'') None moduleLoaded)
     = Some (Inl (SyntaxError Invalid_number_digit_expected 4))
   \<and> result (parse (exampleEnv False []) 1 (js ''1ex'') None moduleLoaded)
     = Some (Inl (SyntaxError Invalid_number_digit_expected 2))
   \<and> result (parse (exampleEnv False []) 1 (js ''1e5e'') None moduleLoaded)
     = Some (Inl (SyntaxError Unexpected_characters 3))\<close>
  by code_simp

text \<open>
  C6, amended: every input that is a complete well-formed value, followed by optional
  whitespace and then by trailing content that starts with a token other than a string,
  fails with an Unexpected-characters error whose offset is that of the first character
  of this token, the first unconsumed character. Here a complete well-formed value is a
  text that \<open>parse\<close> accepts with the end of the text as its current token (the empty
  delimiter token, and not the empty string of the examples above); the trailing token is
  a delimiter, a symbol or a well-formed number (\<open>startsToken\<close>); and the trailing content
  is apart from the value (\<open>apart\<close>), so that it is trailing content and not more of the
  value's last token: after a value that ends with a digit it starts with no digit, no
  decimal point and no exponent mark, and after a value that ends with a letter or an
  underscore it starts with no letter and no underscore. Whitespace between the two
  always sets them apart.
\<close>

theorem trailing_token_unexpected:
  assumes "parse env n v None s0 = Some (Inr (val, s))" and "tokenType s = DELIMITER"
    and "list_all isWhitespace ws" and "startsToken (x # rem)" and "apart v (ws @ x # rem)"
  shows "parse env n (v @ ws @ x # rem) reviver s0
           = Some (Inl (SyntaxError Unexpected_characters (int (length v + length ws))))"
proof -
  define rest where "rest = ws @ x # rem"
  have ok: "\<exists>b'. getToken b = Inr b'" if "reads b rest" for b
    using first_trailing_token [OF _ assms(3,4), of b] that by (auto simp: rest_def)
  from assms(1) obtain a1 where g: "getToken (initialize v s0) = Inr a1"
    by (cases "getToken (initialize v s0)") (auto simp: parse_def)
  from assms(1) g have p: "parseObject env n a1 = Some (Inr (val, s))" and t: "token s = []"
    by (auto simp: parse_def split: option.splits sum.splits if_splits)
  have n1: "tokenType a1 \<noteq> DELIMITER \<or> token a1 \<noteq> []"
    using parseObject_at_end [of a1 env n "(val, s)"] p by blast
  have w0: "within rest (initialize v s0)"
    using assms(5) inside_initialize [of v s0] by (simp add: within_def rest_def) (simp add: initialize_def)
  from longer_getToken [OF w0 g n1]
  have gb: "getToken (initialize (v @ rest) s0) = Inr (longer rest a1)" and i1: "within rest a1"
    by (simp_all add: initialize_longer)
  have pb: "parseObject env n (longer rest a1) = Some (Inr (val, beyond rest s))"
    using parser_extends [of rest env n] ok i1 p by blast
  have c: "consumed a1 s"
    by (rule parseObject_consumed [OF _ p])
      (use getToken_lexed [OF initialize_consistent g] in \<open>simp add: lexed_def\<close>)
  then have e: "length (jsonText s) < index s"
    using assms(2) t by (intro atToken_end consumed_atToken)
  have v: "jsonText s = v"
    using c getToken_lexed [OF initialize_consistent g]
    by (simp add: consumed_def lexed_def initialize_def)
  have "reads (longer rest (endState s)) (ws @ x # rem)"
    unfolding rest_def [symmetric] by (rule reads_longer_end) simp_all
  from first_trailing_token [OF this assms(3,4)] obtain b'
    where b': "getToken (longer rest (endState s)) = Inr b'" and k: "token b' \<noteq> []"
      and ts: "tokenStart b' = int (length v + length ws)"
    by (auto simp: v)
  from e b' have "beyond rest s = b'"
    by (simp add: beyond_def)
  with gb pb k ts show ?thesis
    by (simp add: parse_def createSyntaxError_def tokenStart_def rest_def)
qed

definition afterArray :: pstate where
  "afterArray = \<lparr>jsonText = js ''[1]'', index = 4, c = [], token = [], tokenType = DELIMITER,
     path = [], stack = [], heap = [JArray [JNumber (Double False 4503599627370496 (- 52))]]\<rparr>"

definition afterOne :: pstate where
  "afterOne = \<lparr>jsonText = js ''1'', index = 2, c = [], token = [], tokenType = DELIMITER,
     path = [], stack = [], heap = []\<rparr>"

theorem trailing_token_unexpected_witness:
  \<open>parse (exampleEnv False []) 2 (js ''[1]'') None moduleLoaded = Some (Inr (JRef 0, afterArray))
   \<and> tokenType afterArray = DELIMITER
   \<and> parse (exampleEnv False []) 2 (js ''1'') None moduleLoaded
       = Some (Inr (JNumber (Double False 4503599627370496 (- 52)), afterOne))
   \<and> tokenType afterOne = DELIMITER
   \<and> list_all isWhitespace (js '' '') \<and> list_all isWhitespace []
   \<and> startsToken (js '',[2]'') \<and> apart (js ''[1]'') (js '' ,[2]'')
   \<and> parse (exampleEnv False []) 2 (js ''[1] ,[2]'') None moduleLoaded
       = Some (Inl (SyntaxError Unexpected_characters 4))
   \<and> startsToken (js ''true'') \<and> apart (js ''[1]'') (js '' true'')
   \<and> parse (exampleEnv False []) 2 (js ''[1] true'') None moduleLoaded
       = Some (Inl (SyntaxError Unexpected_characters 4))
   \<and> startsToken (js ''2'') \<and> apart (js ''1'') (js '' 2'')
   \<and> parse (exampleEnv False []) 2 (js ''1 2'') None moduleLoaded
       = Some (Inl (SyntaxError Unexpected_characters 2))
   \<and> startsToken (js ''-2.5e3]'') \<and> apart (js ''[1]'') (js ''-2.5e3]'')
   \<and> parse (exampleEnv False []) 2 (js ''[1]-2.5e3]'') None moduleLoaded
       = Some (Inl (SyntaxError Unexpected_characters 3))
   \<and> startsToken (js ''x'') \<and> apart (js ''1'') (js ''x'')
   \<and> parse (exampleEnv False []) 2 (js ''1x'') None moduleLoaded
       = Some (Inl (SyntaxError Unexpected_characters 1))\<close>
proof -
  have a: \<open>parse (exampleEnv False []) 2 (js ''[1]'') None moduleLoaded = Some (Inr (JRef 0, afterArray))\<close>
    by code_simp
  have b: "tokenType afterArray = DELIMITER"
    by (simp add: afterArray_def)
  have a': \<open>parse (exampleEnv False []) 2 (js ''1'') None moduleLoaded
       = Some (Inr (JNumber (Double False 4503599627370496 (- 52)), afterOne))\<close>
    by code_simp
  have b': "tokenType afterOne = DELIMITER"
    by (simp add: afterOne_def)
  have w: "list_all isWhitespace (js '' '')" and w0: "list_all isWhitespace []"
    by (simp_all add: isWhitespace_def)
  have s1: "startsToken (0x2C # js ''[2]'')" and s2: "startsToken (0x74 # js ''rue'')"
    and s3: "startsToken (0x32 # [])" and s4: "startsToken (0x2D # js ''2.5e3]'')"
    and s5: "startsToken (0x78 # [])"
    by code_simp+
  have p1: "apart (js ''[1]'') (js '' '' @ 0x2C # js ''[2]'')"
    and p2: "apart (js ''[1]'') (js '' '' @ 0x74 # js ''rue'')"
    and p3: "apart (js ''1'') (js '' '' @ 0x32 # [])"
    and p4: "apart (js ''[1]'') ([] @ 0x2D # js ''2.5e3]'')"
    and p5: "apart (js ''1'') ([] @ 0x78 # [])"
    by code_simp+
  show ?thesis
    using a b a' b' w w0 s1 s2 s3 s4 s5 p1 p2 p3 p4 p5
      trailing_token_unexpected [OF a b w s1 p1, of None]
      trailing_token_unexpected [OF a b w s2 p2, of None]
      trailing_token_unexpected [OF a' b' w s3 p3, of None]
      trailing_token_unexpected [OF a b w0 s4 p4, of None]
      trailing_token_unexpected [OF a' b' w0 s5 p5, of None]
    by simp
qed

end
